theory Spec2Isabelle
  imports Complex_Main "HOL-Library.Sublist"
begin

section \<open>A limit order book with price levels: the data model\<close>

text \<open>
  The development follows \<open>src/limit_order_book.py\<close> and \<open>src/client.py\<close>.
  Python's \<open>Decimal\<close> quantities (prices and sizes) are the rationals here: every
  comparison and subtraction is the exact one, which is what \<open>Decimal\<close> computes as
  long as a result fits the 28 significant digits of the default context.
  Order objects are mutable and shared between the caller, the book and the owner, so
  they live in a store: a reference is a natural number, \<open>heap\<close> gives the object
  behind it and \<open>next_ref\<close> counts the objects allocated so far.
\<close>

datatype OrderSide = BUY | SELL

datatype OrderStatus = CREATED | POSTED | PARTIALLY_FILLED | FILLED | CANCELLED

datatype error = ValueError | IndexError | KeyError | LOBUnknownOrderError

fun opposite :: "OrderSide \<Rightarrow> OrderSide" where
  "opposite BUY = SELL"
| "opposite SELL = BUY"

type_synonym ref = nat

text \<open>
  An owner is any Python object with a \<open>receive_update\<close> method; \<open>if self.owner\<close>
  asks for its truth value, which \<open>truthy\<close> records (a \<open>Client\<close> is always truthy).
  \<open>None\<close> is the owner of an order built without one.
\<close>

datatype Owner = Owner (owner_name: string) (truthy: bool)

record Order =
  price :: rat
  size_d :: rat
  side :: OrderSide
  venue :: "nat option"
  owner :: "Owner option"
  status :: OrderStatus
  order_id :: "nat option"

datatype OrderUpdate =
  OrderUpdate (upd_order: ref) (upd_status: OrderStatus) (upd_last_status: OrderStatus)

text \<open>
  A \<open>SortedDict\<close> of sortedcontainers keeps its keys in ascending order; it is the list
  of its items in that order. Each value is the deque of one price level, oldest first.
\<close>

type_synonym SortedDict = "(rat \<times> ref list) list"

record LimitOrderBook =
  name :: string
  book_id :: nat
  bids :: SortedDict
  asks :: SortedDict
  last_order :: "ref option"
  order_count :: nat

text \<open>
  \<open>delivered\<close> is the sequence of calls \<open>owner.receive_update(update)\<close> made so far,
  each with the owner that received it.
\<close>

record world =
  heap :: "ref \<Rightarrow> Order"
  next_ref :: nat
  book :: LimitOrderBook
  delivered :: "(Owner \<times> OrderUpdate) list"

subsection \<open>Order\<close>

text \<open>
  The setter of \<open>price\<close>: \<open>if price and price > 0\<close> is false for \<open>None\<close>, for zero and
  for a negative number, and then \<open>ValueError\<close> is raised.
\<close>

definition price_setter :: "rat option \<Rightarrow> error + rat" where
  "price_setter p =
     (case p of
        None \<Rightarrow> Inl ValueError
      | Some x \<Rightarrow> if x \<noteq> 0 \<and> x > 0 then Inr x else Inl ValueError)"

definition set_price :: "rat option \<Rightarrow> Order \<Rightarrow> error + Order" where
  "set_price p ord =
     (case price_setter p of Inl e \<Rightarrow> Inl e | Inr x \<Rightarrow> Inr (ord\<lparr>price := x\<rparr>))"

definition Order_init ::
  "rat option \<Rightarrow> rat \<Rightarrow> OrderSide \<Rightarrow> nat option \<Rightarrow> Owner option \<Rightarrow> error + Order" where
  "Order_init p sz sd v ow =
     (case price_setter p of
        Inl e \<Rightarrow> Inl e
      | Inr x \<Rightarrow> Inr \<lparr>price = x, size_d = sz, side = sd, venue = v, owner = ow,
                     status = CREATED, order_id = None\<rparr>)"

definition owner_truthy :: "Owner option \<Rightarrow> bool" where
  "owner_truthy ow = (case ow of None \<Rightarrow> False | Some x \<Rightarrow> truthy x)"

definition set_status :: "ref \<Rightarrow> OrderStatus \<Rightarrow> world \<Rightarrow> world" where
  "set_status r st w = w\<lparr>heap := (heap w)(r := (heap w r)\<lparr>status := st\<rparr>)\<rparr>"

definition set_size :: "ref \<Rightarrow> rat \<Rightarrow> world \<Rightarrow> world" where
  "set_size r v w = w\<lparr>heap := (heap w)(r := (heap w r)\<lparr>size_d := v\<rparr>)\<rparr>"

definition update_status :: "ref \<Rightarrow> OrderStatus \<Rightarrow> world \<Rightarrow> world" where
  "update_status r new_status w =
     (let old_status = status (heap w r);
          w1 = set_status r new_status w
      in case owner (heap w1 r) of
           None \<Rightarrow> w1
         | Some ow \<Rightarrow>
             if truthy ow
             then w1\<lparr>delivered := delivered w1 @ [(ow, OrderUpdate r new_status old_status)]\<rparr>
             else w1)"

definition assign_id :: "ref \<Rightarrow> nat \<Rightarrow> world \<Rightarrow> world" where
  "assign_id r i w = w\<lparr>heap := (heap w)(r := (heap w r)\<lparr>order_id := Some i\<rparr>)\<rparr>"

subsection \<open>Identifiers\<close>

text \<open>
  \<open>int(f"{self.book_id}{self._order_count}")\<close>: the decimal numerals of both numbers,
  one after the other, read back as one number.
\<close>

definition digit_char :: "nat \<Rightarrow> char" where
  "digit_char d = char_of (48 + d)"

definition digit_val :: "char \<Rightarrow> nat" where
  "digit_val c = of_char c - 48"

fun str_nat :: "nat \<Rightarrow> string" where
  "str_nat n = (if n < 10 then [digit_char n] else str_nat (n div 10) @ [digit_char (n mod 10)])"

declare str_nat.simps [simp del]

definition int_str :: "string \<Rightarrow> nat" where
  "int_str s = foldl (\<lambda>a c. 10 * a + digit_val c) 0 s"

text \<open>
  \<open>nb_books\<close> is an attribute of the class, shared by all books: the constructor takes
  its value and returns the new one with the book.
\<close>

definition LimitOrderBook_init :: "string \<Rightarrow> nat \<Rightarrow> LimitOrderBook \<times> nat" where
  "LimitOrderBook_init nm nb_books =
     (let nb = nb_books + 1
      in (\<lparr>name = nm, book_id = nb, bids = [], asks = [], last_order = None,
            order_count = 0\<rparr>, nb))"

definition new_order_id :: "LimitOrderBook \<Rightarrow> nat \<times> LimitOrderBook" where
  "new_order_id b =
     (let b1 = b\<lparr>order_count := order_count b + 1\<rparr>
      in (int_str (str_nat (book_id b1) @ str_nat (order_count b1)), b1))"

subsection \<open>SortedDict\<close>

text \<open>
  \<open>peekitem()\<close> has the default index \<open>-1\<close>: it returns the last item, the one with the
  greatest key. The book calls it on a non-empty dictionary only, after a test of \<open>len\<close>.
\<close>

definition peekitem :: "SortedDict \<Rightarrow> rat \<times> ref list" where
  "peekitem d = last d"

text \<open>\<open>sd_lookup p d\<close> is \<open>None\<close> when \<open>p in d\<close> is false and the deque \<open>d[p]\<close> otherwise.\<close>

definition sd_lookup :: "rat \<Rightarrow> SortedDict \<Rightarrow> ref list option" where
  "sd_lookup p d = map_of d p"

fun sd_insert :: "rat \<Rightarrow> ref list \<Rightarrow> SortedDict \<Rightarrow> SortedDict" where
  "sd_insert p v [] = [(p, v)]"
| "sd_insert p v ((k, q) # d) =
     (if p < k then (p, v) # (k, q) # d else (k, q) # sd_insert p v d)"

definition sd_setdefault :: "rat \<Rightarrow> ref list \<Rightarrow> SortedDict \<Rightarrow> SortedDict" where
  "sd_setdefault p v d = (case sd_lookup p d of None \<Rightarrow> sd_insert p v d | Some q \<Rightarrow> d)"

definition sd_delitem :: "rat \<Rightarrow> SortedDict \<Rightarrow> SortedDict" where
  "sd_delitem p d = filter (\<lambda>kv. fst kv \<noteq> p) d"

text \<open>A deque is mutated in place: the item of its key gets the new contents.\<close>

definition sd_modify :: "rat \<Rightarrow> (ref list \<Rightarrow> ref list) \<Rightarrow> SortedDict \<Rightarrow> SortedDict" where
  "sd_modify p f d = map (\<lambda>kv. if fst kv = p then (fst kv, f (snd kv)) else kv) d"

subsection \<open>LimitOrderBook\<close>

definition side_dict :: "OrderSide \<Rightarrow> LimitOrderBook \<Rightarrow> SortedDict" where
  "side_dict sd b = (if sd = BUY then bids b else asks b)"

definition set_side_dict :: "OrderSide \<Rightarrow> SortedDict \<Rightarrow> world \<Rightarrow> world" where
  "set_side_dict sd d w =
     (if sd = BUY then w\<lparr>book := (book w)\<lparr>bids := d\<rparr>\<rparr> else w\<lparr>book := (book w)\<lparr>asks := d\<rparr>\<rparr>)"

definition convert_price :: "Order \<Rightarrow> rat" where
  "convert_price ord = (if side ord = SELL then price ord else - price ord)"

definition is_crossing :: "ref \<Rightarrow> world \<Rightarrow> bool" where
  "is_crossing r w =
     (if side (heap w r) = BUY
      then (if length (asks (book w)) > 0
            then price (heap w r) \<ge> fst (peekitem (asks (book w)))
            else False)
      else (if length (bids (book w)) > 0
            then price (heap w r) \<le> - fst (peekitem (bids (book w)))
            else False))"

text \<open>
  \<open>_match\<close> fixes the opposite side and the comparison (\<open>order.price.__ge__\<close> for a
  BUY, \<open>order.price.__le__\<close> for a SELL) before its loop. \<open>condition sd p\<close> is that
  bound method for an order of side \<open>sd\<close> and price \<open>p\<close>.
\<close>

definition condition :: "OrderSide \<Rightarrow> rat \<Rightarrow> rat \<Rightarrow> bool" where
  "condition sd p x = (if sd = BUY then p \<ge> x else p \<le> x)"

text \<open>
  One round of the loop of \<open>_match\<close>, from the test that the opposite side has a level
  left (made before the loop and again at the end of its body) to the end of the body.
  The round ends the call (\<open>Return\<close>), goes on to the next round (\<open>Continue\<close>), or raises
  (\<open>Raise\<close>: \<open>top_orders[0]\<close> on an empty deque).
\<close>

datatype step_result = Continue world | Return world | Raise error world

definition match_step :: "OrderSide \<Rightarrow> rat \<Rightarrow> ref \<Rightarrow> world \<Rightarrow> step_result" where
  "match_step sd p r w =
     (let opp = opposite sd;
          opposite_side = side_dict opp (book w)
      in if length opposite_side = 0 then Return w
         else
           let (top_price, top_orders) = peekitem opposite_side
           in if \<not> condition sd p (abs top_price) then Return w
              else
                (case top_orders of
                   [] \<Rightarrow> Raise IndexError w
                 | matching_order # rest \<Rightarrow>
                     let diff = size_d (heap w matching_order) - size_d (heap w r)
                     in if diff < 0 then
                          let w1 = set_side_dict opp (sd_modify top_price tl opposite_side) w;
                              w2 = set_size r (size_d (heap w1 r) - size_d (heap w1 matching_order)) w1;
                              w3 = set_size matching_order 0 w2;
                              w4 = (if length rest = 0
                                    then set_side_dict opp
                                           (sd_delitem top_price (side_dict opp (book w3))) w3
                                    else w3);
                              w5 = update_status r PARTIALLY_FILLED w4;
                              w6 = update_status matching_order FILLED w5
                          in Continue w6
                        else if diff > 0 then
                          let w1 = set_size matching_order
                                     (size_d (heap w matching_order) - size_d (heap w r)) w;
                              w2 = set_size r 0 w1;
                              w3 = update_status matching_order PARTIALLY_FILLED w2;
                              w4 = update_status r FILLED w3
                          in Return w4
                        else
                          let w1 = set_side_dict opp (sd_modify top_price tl opposite_side) w;
                              w2 = set_size matching_order 0 w1;
                              w3 = set_size r 0 w2;
                              w4 = (if length rest = 0
                                    then set_side_dict opp
                                           (sd_delitem top_price (side_dict opp (book w3))) w3
                                    else w3);
                              w5 = update_status matching_order FILLED w4;
                              w6 = update_status r FILLED w5
                          in Return w6))"

text \<open>The number of orders resting on one side: what each further round makes smaller.\<close>

definition resting_count :: "SortedDict \<Rightarrow> nat" where
  "resting_count d = sum_list (map (\<lambda>kv. length (snd kv)) d)"

text \<open>
  The loop: rounds are made until one returns or raises. Every further round has taken
  one order off the opposite side.
\<close>

function match_loop :: "OrderSide \<Rightarrow> rat \<Rightarrow> ref \<Rightarrow> world \<Rightarrow> (error + unit) \<times> world" where
  "match_loop sd p r w =
     (case match_step sd p r w of
        Continue w' \<Rightarrow> match_loop sd p r w'
      | Return w' \<Rightarrow> (Inr (), w')
      | Raise e w' \<Rightarrow> (Inl e, w'))"
  by pat_completeness auto
termination
proof (relation "measure (\<lambda>(sd, p, r, w). resting_count (side_dict (opposite sd) (book w)))")
  show "wf (measure (\<lambda>(sd, p, r, w). resting_count (side_dict (opposite sd) (book w))))"
    by simp
next
  fix sd :: OrderSide and p :: rat and r :: ref and w w' :: world
  assume step: "match_step sd p r w = Continue w'"
  have bk: "\<And>x v u. book (set_size x v u) = book u"
    by (simp add: set_size_def)
  have bu: "\<And>x st u. book (update_status x st u) = book u"
    by (simp add: update_status_def set_status_def Let_def split: option.splits)
  have sd_same: "\<And>s d u. side_dict s (book (set_side_dict s d u)) = d"
    by (simp add: side_dict_def set_side_dict_def)
  have del: "\<And>k d. resting_count (sd_delitem k d) \<le> resting_count d"
  proof -
    fix k and d :: SortedDict
    show "resting_count (sd_delitem k d) \<le> resting_count d"
      by (induction d) (auto simp: resting_count_def sd_delitem_def)
  qed
  have pop: "\<And>k m rest d. d \<noteq> [] \<Longrightarrow> last d = (k, m # rest) \<Longrightarrow>
      resting_count (sd_modify k tl d) < resting_count d"
  proof -
    fix k :: rat and m :: ref and rest :: "ref list" and d :: SortedDict
    assume "d \<noteq> []" and "last d = (k, m # rest)"
    then show "resting_count (sd_modify k tl d) < resting_count d"
    proof (induction d)
      case Nil
      then show ?case by simp
    next
      case (Cons kv d)
      show ?case
      proof (cases "d = []")
        case True
        with Cons.prems show ?thesis by (simp add: resting_count_def sd_modify_def)
      next
        case False
        with Cons have "resting_count (sd_modify k tl d) < resting_count d" by simp
        then show ?thesis by (auto simp: resting_count_def sd_modify_def)
      qed
    qed
  qed
  let ?d = "side_dict (opposite sd) (book w)"
  from step have ne: "?d \<noteq> []"
    by (auto simp: match_step_def Let_def split: if_splits)
  from step obtain k m rest where top: "last ?d = (k, m # rest)"
    and after: "side_dict (opposite sd) (book w') = sd_modify k tl ?d
              \<or> side_dict (opposite sd) (book w') = sd_delitem k (sd_modify k tl ?d)"
    by (auto simp: match_step_def Let_def peekitem_def bk bu sd_same
          split: if_splits prod.splits list.splits)
  from pop [OF ne top] after del [of k "sd_modify k tl ?d"]
  have "resting_count (side_dict (opposite sd) (book w')) < resting_count ?d"
    by auto
  then show "((sd, p, r, w'), (sd, p, r, w))
      \<in> measure (\<lambda>(sd, p, r, w). resting_count (side_dict (opposite sd) (book w)))"
    by simp
qed

declare match_loop.simps [simp del]

definition match :: "ref \<Rightarrow> world \<Rightarrow> (error + unit) \<times> world" where
  "match r w = match_loop (side (heap w r)) (price (heap w r)) r w"

text \<open>
  The end of \<open>add_order\<close>: the deque of the order's price on its own side is looked up,
  or made by \<open>setdefault\<close>, and the order is appended to it.
\<close>

definition rest_order :: "ref \<Rightarrow> world \<Rightarrow> world" where
  "rest_order r w =
     (let p = convert_price (heap w r);
          sd = (if side (heap w r) = BUY then BUY else SELL);
          d = side_dict sd (book w);
          d1 = (case sd_lookup p d of Some q \<Rightarrow> d | None \<Rightarrow> sd_setdefault p [] d)
      in set_side_dict sd (sd_modify p (\<lambda>q. q @ [r]) d1) w)"

definition add_order :: "ref \<Rightarrow> world \<Rightarrow> (error + bool) \<times> world" where
  "add_order r w =
     (let (i, b1) = new_order_id (book w);
          w1 = assign_id r i (w\<lparr>book := b1\<rparr>);
          w2 = update_status r POSTED w1;
          (res, w3) = (if is_crossing r w2 then match r w2 else (Inr (), w2))
      in case res of
           Inl e \<Rightarrow> (Inl e, w3)
         | Inr u \<Rightarrow>
             let w4 = (if size_d (heap w3 r) \<noteq> 0 then rest_order r w3 else w3)
             in (Inr True, w4\<lparr>book := (book w4)\<lparr>last_order := Some r\<rparr>\<rparr>))"

text \<open>
  \<open>deque.remove\<close> raises \<open>ValueError\<close> when the order is not in the deque (orders are
  compared by identity) and takes its first occurrence out otherwise; the handler turns
  the \<open>ValueError\<close> into \<open>LOBUnknownOrderError\<close>.
\<close>

definition remove_order :: "ref \<Rightarrow> world \<Rightarrow> (error + bool) \<times> world" where
  "remove_order r w =
     (let sd = (if side (heap w r) = BUY then BUY else SELL);
          d = side_dict sd (book w);
          p = convert_price (heap w r)
      in case sd_lookup p d of
           Some q \<Rightarrow>
             if r \<in> set q then
               let d1 = sd_modify p (remove1 r) d;
                   d2 = (if length (remove1 r q) = 0 then sd_delitem p d1 else d1);
                   w1 = set_side_dict sd d2 w
               in (Inr True, update_status r CANCELLED w1)
             else (Inl LOBUnknownOrderError, w)
         | None \<Rightarrow> (Inl LOBUnknownOrderError, w))"

subsection \<open>Client\<close>

text \<open>
  \<open>Client.create_order\<close> builds the order and submits it to the venue;
  \<open>Client.cancel_order\<close> asks the venue to remove it. The owner is a parameter here
  (the client passes itself), so that an order without owner can be submitted too.
\<close>

definition create_order ::
  "rat option \<Rightarrow> rat \<Rightarrow> OrderSide \<Rightarrow> Owner option \<Rightarrow> world \<Rightarrow> (error + ref) \<times> world" where
  "create_order p sz sd ow w =
     (case Order_init p sz sd (Some (book_id (book w))) ow of
        Inl e \<Rightarrow> (Inl e, w)
      | Inr ord \<Rightarrow>
          let r = next_ref w;
              w1 = w\<lparr>heap := (heap w)(r := ord), next_ref := r + 1\<rparr>;
              (res, w2) = add_order r w1
          in (case res of Inl e \<Rightarrow> (Inl e, w2) | Inr u \<Rightarrow> (Inr r, w2)))"

definition cancel_order :: "ref \<Rightarrow> world \<Rightarrow> (error + ref) \<times> world" where
  "cancel_order r w =
     (let (res, w1) = remove_order r w
      in (case res of Inl e \<Rightarrow> (Inl e, w1) | Inr u \<Rightarrow> (Inr r, w1)))"

subsection \<open>Runs\<close>

text \<open>
  A run is a sequence of calls made on one book, from the book as its constructor leaves
  it. A call that raises leaves the state as it was when the exception left the call.
  No object is allocated yet at the start: the store holds a blank at every reference.
\<close>

definition blank :: Order where
  "blank = \<lparr>price = 1, size_d = 0, side = BUY, venue = None, owner = None,
            status = CREATED, order_id = None\<rparr>"

definition init_world :: "string \<Rightarrow> nat \<Rightarrow> world" where
  "init_world nm nb_books =
     \<lparr>heap = (\<lambda>r. blank), next_ref = 0, book = fst (LimitOrderBook_init nm nb_books),
      delivered = []\<rparr>"

datatype op = Submit "rat option" rat OrderSide "Owner option" | Cancel ref

fun apply_op :: "op \<Rightarrow> world \<Rightarrow> world" where
  "apply_op (Submit p sz sd ow) w = snd (create_order p sz sd ow w)"
| "apply_op (Cancel r) w = snd (cancel_order r w)"

fun run :: "op list \<Rightarrow> world \<Rightarrow> world" where
  "run [] w = w"
| "run (x # xs) w = run xs (apply_op x w)"

text \<open>The inputs of a run are valid when every submitted order has a positive size.\<close>

fun valid_op :: "op \<Rightarrow> bool" where
  "valid_op (Submit p sz sd ow) = (0 < sz)"
| "valid_op (Cancel r) = True"

definition valid_ops :: "op list \<Rightarrow> bool" where
  "valid_ops ops = list_all valid_op ops"

subsection \<open>Quantities and predicates of the book\<close>

definition level_of :: "SortedDict \<Rightarrow> rat \<Rightarrow> ref list" where
  "level_of d k = (case sd_lookup k d of None \<Rightarrow> [] | Some q \<Rightarrow> q)"

definition book_refs :: "LimitOrderBook \<Rightarrow> ref set" where
  "book_refs b = (\<Union>kv \<in> set (bids b) \<union> set (asks b). set (snd kv))"

definition level_size :: "(ref \<Rightarrow> Order) \<Rightarrow> ref list \<Rightarrow> rat" where
  "level_size h q = sum_list (map (\<lambda>r. size_d (h r)) q)"

definition side_total :: "(ref \<Rightarrow> Order) \<Rightarrow> SortedDict \<Rightarrow> rat" where
  "side_total h d = sum_list (map (\<lambda>kv. level_size h (snd kv)) d)"

definition resting_total :: "world \<Rightarrow> rat" where
  "resting_total w = side_total (heap w) (bids (book w)) + side_total (heap w) (asks (book w))"

definition sum_sizes :: "nat \<Rightarrow> (ref \<Rightarrow> Order) \<Rightarrow> rat" where
  "sum_sizes n h = sum_list (map (\<lambda>r. size_d (h r)) [0..<n])"

text \<open>
  The three properties of a well-formed book: no level is empty, every resting order has
  a positive size, and every resting order is on its own side.
\<close>

definition side_well_formed :: "OrderSide \<Rightarrow> (ref \<Rightarrow> Order) \<Rightarrow> SortedDict \<Rightarrow> bool" where
  "side_well_formed sd h d =
     (\<forall>kv \<in> set d. snd kv \<noteq> [] \<and> (\<forall>r \<in> set (snd kv). 0 < size_d (h r) \<and> side (h r) = sd))"

definition well_formed :: "world \<Rightarrow> bool" where
  "well_formed w =
     (side_well_formed BUY (heap w) (bids (book w)) \<and>
      side_well_formed SELL (heap w) (asks (book w)))"

text \<open>
  What every run keeps true, and what the properties above follow from: the keys of each
  side are in strictly ascending order; every level is non-empty and without repetition;
  every resting order is an allocated object of the side and the key of its level, has a
  positive size and is POSTED or PARTIALLY_FILLED.
\<close>

definition level_ok :: "OrderSide \<Rightarrow> world \<Rightarrow> rat \<times> ref list \<Rightarrow> bool" where
  "level_ok sd w kv =
     (snd kv \<noteq> [] \<and> distinct (snd kv) \<and>
      (\<forall>r \<in> set (snd kv).
         r < next_ref w \<and> side (heap w r) = sd \<and> convert_price (heap w r) = fst kv \<and>
         0 < size_d (heap w r) \<and>
         (status (heap w r) = POSTED \<or> status (heap w r) = PARTIALLY_FILLED)))"

definition side_inv :: "OrderSide \<Rightarrow> world \<Rightarrow> bool" where
  "side_inv sd w =
     (sorted_wrt (<) (map fst (side_dict sd (book w))) \<and>
      (\<forall>kv \<in> set (side_dict sd (book w)). level_ok sd w kv))"

definition book_inv :: "world \<Rightarrow> bool" where
  "book_inv w = (side_inv BUY w \<and> side_inv SELL w)"

definition side_refs :: "SortedDict \<Rightarrow> ref set" where
  "side_refs d = (\<Union>kv \<in> set d. set (snd kv))"

text \<open>
  An order rests when it is in the deque that \<open>remove_order\<close> searches: the level of its
  converted price on its side.
\<close>

definition resting :: "ref \<Rightarrow> world \<Rightarrow> bool" where
  "resting r w =
     (r \<in> set (level_of (side_dict (side (heap w r)) (book w)) (convert_price (heap w r))))"

text \<open>
  An order taken out of the level of key \<open>p\<close>, the level being deleted when it was the
  last one there: what \<open>remove_order\<close> does to the order's side, and what a round of
  the matching loop does with the head of the top level.
\<close>

definition take_out :: "rat \<Rightarrow> ref \<Rightarrow> SortedDict \<Rightarrow> SortedDict" where
  "take_out p x d =
     (if remove1 x (level_of d p) = [] then sd_delitem p (sd_modify p (remove1 x) d)
      else sd_modify p (remove1 x) d)"

text \<open>An order that may rest: of positive size, POSTED or PARTIALLY_FILLED.\<close>

definition live :: "ref \<Rightarrow> world \<Rightarrow> bool" where
  "live r w =
     (0 < size_d (heap w r) \<and>
      (status (heap w r) = POSTED \<or> status (heap w r) = PARTIALLY_FILLED))"

text \<open>
  What matching the incoming order \<open>r\<close> keeps and changes between two worlds: the
  invariant holds, \<open>r\<close> is not in the book, its side and price and its own side of the
  book are as before, and what \<open>r\<close> lost in size is what the resting orders lost, so
  that the sizes of all objects together went down by twice that amount.
\<close>

definition match_frame :: "ref \<Rightarrow> world \<Rightarrow> world \<Rightarrow> bool" where
  "match_frame r w w' =
     (book_inv w' \<and> r \<notin> book_refs (book w') \<and> book_refs (book w') \<subseteq> book_refs (book w) \<and>
      next_ref w' = next_ref w \<and>
      side (heap w' r) = side (heap w r) \<and> price (heap w' r) = price (heap w r) \<and>
      side_dict (side (heap w r)) (book w') = side_dict (side (heap w r)) (book w) \<and>
      size_d (heap w' r) \<le> size_d (heap w r) \<and>
      resting_total w - resting_total w' = size_d (heap w r) - size_d (heap w' r) \<and>
      sum_sizes (next_ref w) (heap w) - sum_sizes (next_ref w) (heap w')
        = (size_d (heap w r) - size_d (heap w' r)) + (size_d (heap w r) - size_d (heap w' r)))"

subsection \<open>Accounting of sizes along a run\<close>

text \<open>
  The book keeps no record of fills, so the quantities of the conservation law are read
  off the states before and after each call:
  \<^item> \<open>submitted\<close>: the sizes of the orders submitted, as they were on submission;
  \<^item> \<open>cancelled\<close>: the sizes that cancelled orders had left when they were cancelled;
  \<^item> \<open>filled_incoming\<close>: what submitted orders lost in size during their own submission;
  \<^item> \<open>filled_resting\<close>: what all the objects that existed before a submission lost in
    size during it.
  A submission counts when the order was built (its price was accepted), a cancellation
  when it returned normally.
\<close>

record ledger =
  submitted :: rat
  cancelled :: rat
  filled_incoming :: rat
  filled_resting :: rat

definition no_fills :: ledger where
  "no_fills = \<lparr>submitted = 0, cancelled = 0, filled_incoming = 0, filled_resting = 0\<rparr>"

fun account :: "op \<Rightarrow> world \<Rightarrow> world \<Rightarrow> ledger \<Rightarrow> ledger" where
  "account (Submit p sz sd ow) w w' l =
     (case price_setter p of
        Inl e \<Rightarrow> l
      | Inr x \<Rightarrow>
          l\<lparr>submitted := submitted l + sz,
            filled_incoming := filled_incoming l + (sz - size_d (heap w' (next_ref w))),
            filled_resting := filled_resting l
              + (sum_sizes (next_ref w) (heap w) - sum_sizes (next_ref w) (heap w'))\<rparr>)"
| "account (Cancel r) w w' l =
     (case fst (cancel_order r w) of
        Inl e \<Rightarrow> l
      | Inr x \<Rightarrow> l\<lparr>cancelled := cancelled l + size_d (heap w r)\<rparr>)"

fun run_ledger :: "op list \<Rightarrow> world \<Rightarrow> ledger \<Rightarrow> world \<times> ledger" where
  "run_ledger [] w l = (w, l)"
| "run_ledger (x # xs) w l = run_ledger xs (apply_op x w) (account x w (apply_op x w) l)"

definition balance :: "world \<Rightarrow> ledger \<Rightarrow> rat" where
  "balance w l =
     resting_total w + (filled_incoming l + filled_resting l) - (submitted l - cancelled l)"

subsection \<open>Notifications about one order\<close>

definition updates_about :: "ref \<Rightarrow> (Owner \<times> OrderUpdate) list \<Rightarrow> (Owner \<times> OrderUpdate) list" where
  "updates_about x us = filter (\<lambda>e. upd_order (snd e) = x) us"

text \<open>
  The parts of the world that no round of matching writes: the number of objects, and
  the owner, side and price of every order; and for an order whose owner is \<open>None\<close> or
  falsy, the notifications about it.
\<close>

fun world_of :: "step_result \<Rightarrow> world" where
  "world_of (Continue w) = w"
| "world_of (Return w) = w"
| "world_of (Raise e w) = w"

definition static :: "world \<Rightarrow> world \<Rightarrow> bool" where
  "static w w' =
     (next_ref w' = next_ref w \<and>
      (\<forall>y. owner (heap w' y) = owner (heap w y) \<and> side (heap w' y) = side (heap w y) \<and>
           price (heap w' y) = price (heap w y)) \<and>
      (\<forall>x. \<not> owner_truthy (owner (heap w x)) \<longrightarrow>
           updates_about x (delivered w') = updates_about x (delivered w)))"

text \<open>
  The stages of \<open>add_order\<close>: the world once the identifier is assigned and POSTED is
  set, and the world once the matching, if any, has ended.
\<close>

definition posted :: "ref \<Rightarrow> world \<Rightarrow> world" where
  "posted r w = update_status r POSTED
      (assign_id r (fst (new_order_id (book w))) (w\<lparr>book := snd (new_order_id (book w))\<rparr>))"

definition matched :: "ref \<Rightarrow> world \<Rightarrow> (error + unit) \<times> world" where
  "matched r w =
     (if is_crossing r (posted r w) then match r (posted r w) else (Inr (), posted r w))"

text \<open>
  A world for examples: two SELL orders of size 1 rest at 100, in the order of their
  arrival, and two more orders are built but not submitted yet, a BUY and a SELL of
  size 1 at 100.
\<close>

definition two_asks :: world where
  "two_asks =
     (let w = run [Submit (Some 100) 1 SELL None, Submit (Some 100) 1 SELL None]
                (init_world ''binance'' 0)
      in w\<lparr>heap := (heap w)
               (2 := \<lparr>price = 100, size_d = 1, side = BUY, venue = Some 1, owner = None,
                      status = CREATED, order_id = None\<rparr>,
                3 := \<lparr>price = 100, size_d = 1, side = SELL, venue = Some 1, owner = None,
                      status = CREATED, order_id = None\<rparr>),
             next_ref := 4\<rparr>)"

section \<open>Frame rules of the primitive updates\<close>

lemma set_size_simps [simp]:
  "heap (set_size r v w) = (heap w)(r := (heap w r)\<lparr>size_d := v\<rparr>)"
  "book (set_size r v w) = book w"
  "next_ref (set_size r v w) = next_ref w"
  "delivered (set_size r v w) = delivered w"
  by (simp_all add: set_size_def)

lemma set_status_simps [simp]:
  "heap (set_status r st w) = (heap w)(r := (heap w r)\<lparr>status := st\<rparr>)"
  "book (set_status r st w) = book w"
  "next_ref (set_status r st w) = next_ref w"
  "delivered (set_status r st w) = delivered w"
  by (simp_all add: set_status_def)

lemma assign_id_simps [simp]:
  "heap (assign_id r i w) = (heap w)(r := (heap w r)\<lparr>order_id := Some i\<rparr>)"
  "book (assign_id r i w) = book w"
  "next_ref (assign_id r i w) = next_ref w"
  "delivered (assign_id r i w) = delivered w"
  by (simp_all add: assign_id_def)

lemma update_status_simps [simp]:
  "heap (update_status r st w) = (heap w)(r := (heap w r)\<lparr>status := st\<rparr>)"
  "book (update_status r st w) = book w"
  "next_ref (update_status r st w) = next_ref w"
  by (simp_all add: update_status_def Let_def split: option.splits)

lemma delivered_update_status:
  "delivered (update_status r st w) =
     delivered w @
       (case owner (heap w r) of
          None \<Rightarrow> []
        | Some ow \<Rightarrow> if truthy ow then [(ow, OrderUpdate r st (status (heap w r)))] else [])"
  by (simp add: update_status_def Let_def split: option.splits)

lemma set_side_dict_simps [simp]:
  "heap (set_side_dict sd d w) = heap w"
  "next_ref (set_side_dict sd d w) = next_ref w"
  "delivered (set_side_dict sd d w) = delivered w"
  "side_dict sd (book (set_side_dict sd d w)) = d"
  "side_dict (opposite sd) (book (set_side_dict sd d w)) = side_dict (opposite sd) (book w)"
  "side_dict sd (book (set_side_dict (opposite sd) d w)) = side_dict sd (book w)"
  by (cases sd; simp add: set_side_dict_def side_dict_def)+

lemma set_side_dict_fields [simp]:
  "bids (book (set_side_dict BUY d w)) = d"
  "asks (book (set_side_dict BUY d w)) = asks (book w)"
  "asks (book (set_side_dict SELL d w)) = d"
  "bids (book (set_side_dict SELL d w)) = bids (book w)"
  "book_id (book (set_side_dict sd d w)) = book_id (book w)"
  "order_count (book (set_side_dict sd d w)) = order_count (book w)"
  "last_order (book (set_side_dict sd d w)) = last_order (book w)"
  "name (book (set_side_dict sd d w)) = name (book w)"
  by (simp_all add: set_side_dict_def)

lemma side_dict_simps [simp]:
  "side_dict BUY b = bids b"
  "side_dict SELL b = asks b"
  by (simp_all add: side_dict_def)

section \<open>Facts about the sorted dictionaries\<close>

lemma keys_sd_modify [simp]: "map fst (sd_modify p f d) = map fst d"
  by (induction d) (auto simp: sd_modify_def)

lemma set_sd_modify:
  "set (sd_modify p f d) = (\<lambda>kv. if fst kv = p then (fst kv, f (snd kv)) else kv) ` set d"
  by (simp add: sd_modify_def)

lemma set_sd_delitem [simp]: "set (sd_delitem p d) = {kv \<in> set d. fst kv \<noteq> p}"
  by (auto simp: sd_delitem_def)

lemma keys_sd_delitem: "map fst (sd_delitem p d) = filter (\<lambda>k. k \<noteq> p) (map fst d)"
  by (induction d) (auto simp: sd_delitem_def)

lemma sorted_sd_delitem:
  "sorted_wrt (<) (map fst d) \<Longrightarrow> sorted_wrt (<) (map fst (sd_delitem p d))"
  by (simp add: keys_sd_delitem sorted_wrt_filter)

lemma set_sd_insert [simp]: "set (sd_insert p v d) = insert (p, v) (set d)"
  by (induction d) (auto split: if_splits)

lemma sorted_sd_insert:
  "sorted_wrt (<) (map fst d) \<Longrightarrow> p \<notin> fst ` set d \<Longrightarrow>
   sorted_wrt (<) (map fst (sd_insert p v d))"
  by (induction d) (force simp: image_iff)+

lemma sorted_keys_distinct: "sorted_wrt (<) (map fst d) \<Longrightarrow> distinct (map fst (d :: SortedDict))"
  by (simp add: strict_sorted_iff)

lemma sd_lookup_unique:
  "sorted_wrt (<) (map fst d) \<Longrightarrow> (k, q) \<in> set d \<Longrightarrow> sd_lookup k d = Some q"
  by (simp add: sd_lookup_def sorted_keys_distinct)

lemma sd_lookup_in: "sd_lookup k d = Some q \<Longrightarrow> (k, q) \<in> set d"
  by (simp add: sd_lookup_def map_of_SomeD)

lemma sd_lookup_None: "sd_lookup k d = None \<longleftrightarrow> k \<notin> fst ` set d"
  by (simp add: sd_lookup_def map_of_eq_None_iff)

lemma sd_lookup_modify:
  "sd_lookup k (sd_modify p f d) = (if k = p then map_option f (sd_lookup p d) else sd_lookup k d)"
  by (induction d) (auto simp: sd_lookup_def sd_modify_def)

lemma sd_lookup_delitem:
  "sd_lookup k (sd_delitem p d) = (if k = p then None else sd_lookup k d)"
  by (induction d) (auto simp: sd_lookup_def sd_delitem_def)

lemma sd_lookup_insert:
  "sd_lookup p d = None \<Longrightarrow> sd_lookup k (sd_insert p v d) = (if k = p then Some v else sd_lookup k d)"
  by (induction d) (auto simp: sd_lookup_def split: if_splits)

lemma level_size_append [simp]: "level_size h (q @ q') = level_size h q + level_size h q'"
  by (simp add: level_size_def)

lemma level_size_Nil [simp]: "level_size h [] = 0"
  by (simp add: level_size_def)

lemma level_size_Cons [simp]: "level_size h (x # q) = size_d (h x) + level_size h q"
  by (simp add: level_size_def)

lemma level_size_remove1:
  "r \<in> set q \<Longrightarrow> level_size h (remove1 r q) = level_size h q - size_d (h r)"
  by (induction q) auto

lemma level_size_cong:
  "\<forall>x \<in> set q. size_d (h' x) = size_d (h x) \<Longrightarrow> level_size h' q = level_size h q"
  by (induction q) auto

lemma side_total_Nil [simp]: "side_total h [] = 0"
  by (simp add: side_total_def)

lemma side_total_Cons [simp]: "side_total h (kv # d) = level_size h (snd kv) + side_total h d"
  by (simp add: side_total_def)

lemma side_total_cong:
  "\<forall>kv \<in> set d. \<forall>x \<in> set (snd kv). size_d (h' x) = size_d (h x) \<Longrightarrow>
   side_total h' d = side_total h d"
  by (induction d) (simp_all add: level_size_cong [of _ h' h])

lemma side_total_absent:
  "p \<notin> fst ` set d \<Longrightarrow> sd_modify p f d = d \<and> sd_delitem p d = d"
  by (induction d) (auto simp: sd_modify_def sd_delitem_def)

lemma side_total_modify:
  "sorted_wrt (<) (map fst d) \<Longrightarrow> sd_lookup p d = Some q \<Longrightarrow>
   side_total h (sd_modify p f d) = side_total h d - level_size h q + level_size h (f q)"
proof (induction d)
  case Nil
  then show ?case by (simp add: sd_lookup_def)
next
  case (Cons kv d)
  show ?case
  proof (cases "fst kv = p")
    case True
    with Cons.prems have "p \<notin> fst ` set d" by auto
    then have "sd_modify p f d = d" by (simp add: side_total_absent)
    moreover from True Cons.prems have "snd kv = q" by (cases kv) (simp add: sd_lookup_def)
    ultimately show ?thesis using True
      by (simp add: sd_modify_def)
  next
    case False
    with Cons.prems have "sd_lookup p d = Some q" by (cases kv) (simp add: sd_lookup_def)
    with Cons have "side_total h (sd_modify p f d)
        = side_total h d - level_size h q + level_size h (f q)" by simp
    with False show ?thesis by (simp add: sd_modify_def)
  qed
qed

lemma side_total_delitem:
  "sorted_wrt (<) (map fst d) \<Longrightarrow> sd_lookup p d = Some q \<Longrightarrow>
   side_total h (sd_delitem p d) = side_total h d - level_size h q"
proof (induction d)
  case Nil
  then show ?case by (simp add: sd_lookup_def)
next
  case (Cons kv d)
  show ?case
  proof (cases "fst kv = p")
    case True
    with Cons.prems have "p \<notin> fst ` set d" by auto
    then have "sd_delitem p d = d" by (simp add: side_total_absent)
    moreover from True Cons.prems have "snd kv = q" by (cases kv) (simp add: sd_lookup_def)
    ultimately show ?thesis using True
      by (simp add: sd_delitem_def)
  next
    case False
    with Cons.prems have "sd_lookup p d = Some q" by (cases kv) (simp add: sd_lookup_def)
    with Cons have "side_total h (sd_delitem p d) = side_total h d - level_size h q" by simp
    with False show ?thesis by (simp add: sd_delitem_def)
  qed
qed

lemma side_total_insert [simp]: "side_total h (sd_insert p [] d) = side_total h d"
  by (induction d) auto

lemma book_refs_sides: "book_refs b = side_refs (bids b) \<union> side_refs (asks b)"
  unfolding book_refs_def side_refs_def by (rule UN_Un)

lemma sd_unique:
  assumes "sorted_wrt (<) (map fst d)" and "sd_lookup p d = Some q"
    and "kv \<in> set d" and "fst kv = p"
  shows "kv = (p, q)"
proof -
  from assms(3,4) have "(p, snd kv) \<in> set d" by (cases kv) auto
  with assms(1) have "sd_lookup p d = Some (snd kv)" by (rule sd_lookup_unique)
  with assms(2,4) show ?thesis by (cases kv) auto
qed

lemma set_modify_unique:
  assumes "sorted_wrt (<) (map fst d)" and "sd_lookup p d = Some q"
  shows "set (sd_modify p f d) = insert (p, f q) (set d - {(p, q)})"
proof -
  have u: "\<And>kv. kv \<in> set d \<Longrightarrow> fst kv = p \<Longrightarrow> kv = (p, q)"
    using assms by (rule sd_unique)
  have m: "(p, q) \<in> set d" using assms(2) by (rule sd_lookup_in)
  show ?thesis
  proof (intro set_eqI iffI)
    fix e assume "e \<in> set (sd_modify p f d)"
    then obtain kv where kv: "kv \<in> set d"
      and e: "e = (if fst kv = p then (fst kv, f (snd kv)) else kv)"
      unfolding set_sd_modify by blast
    show "e \<in> insert (p, f q) (set d - {(p, q)})"
    proof (cases "fst kv = p")
      case True
      with u [OF kv] e show ?thesis by simp
    next
      case False
      with e kv show ?thesis by auto
    qed
  next
    fix e assume e: "e \<in> insert (p, f q) (set d - {(p, q)})"
    show "e \<in> set (sd_modify p f d)"
    proof (cases "e = (p, f q)")
      case True
      have "(if fst (p, q) = p then (fst (p, q), f (snd (p, q))) else (p, q)) \<in> set (sd_modify p f d)"
        unfolding set_sd_modify using m by (rule imageI)
      with True show ?thesis by simp
    next
      case False
      with e have ed: "e \<in> set d" and "e \<noteq> (p, q)" by auto
      with u [of e] have "fst e \<noteq> p" by auto
      have "(\<lambda>kv. if fst kv = p then (fst kv, f (snd kv)) else kv) e \<in> set (sd_modify p f d)"
        unfolding set_sd_modify using ed by (rule imageI)
      with \<open>fst e \<noteq> p\<close> show ?thesis by simp
    qed
  qed
qed

lemma set_take_out:
  assumes "sorted_wrt (<) (map fst d)" and "sd_lookup p d = Some q"
  shows "set (take_out p x d) =
     (set d - {(p, q)}) \<union> (if remove1 x q = [] then {} else {(p, remove1 x q)})"
proof -
  have u: "\<And>kv. kv \<in> set d \<Longrightarrow> fst kv = p \<Longrightarrow> kv = (p, q)"
    using assms by (rule sd_unique)
  have l: "level_of d p = q" using assms(2) by (simp add: level_of_def)
  have s: "set (sd_modify p (remove1 x) d) = insert (p, remove1 x q) (set d - {(p, q)})"
    using assms by (rule set_modify_unique)
  show ?thesis
  proof (cases "remove1 x q = []")
    case True
    have "{kv \<in> insert (p, remove1 x q) (set d - {(p, q)}). fst kv \<noteq> p} = set d - {(p, q)}"
      using u by auto
    with True show ?thesis by (simp add: take_out_def l s)
  next
    case False
    then show ?thesis by (simp add: take_out_def l s)
  qed
qed

lemma sorted_take_out:
  "sorted_wrt (<) (map fst d) \<Longrightarrow> sorted_wrt (<) (map fst (take_out p x d))"
proof -
  assume s: "sorted_wrt (<) (map fst d)"
  then have m: "sorted_wrt (<) (map fst (sd_modify p (remove1 x) d))" by simp
  from m have "sorted_wrt (<) (map fst (sd_delitem p (sd_modify p (remove1 x) d)))"
    by (rule sorted_sd_delitem)
  with m show ?thesis by (simp add: take_out_def)
qed

lemma side_total_take_out:
  assumes "sorted_wrt (<) (map fst d)" and "sd_lookup p d = Some q" and "x \<in> set q"
  shows "side_total h (take_out p x d) = side_total h d - size_d (h x)"
proof -
  have l: "level_of d p = q" using assms(2) by (simp add: level_of_def)
  have m: "side_total h (sd_modify p (remove1 x) d) = side_total h d - size_d (h x)"
    using side_total_modify [OF assms(1,2), of h "remove1 x"] level_size_remove1 [OF assms(3), of h]
    by simp
  show ?thesis
  proof (cases "remove1 x q = []")
    case True
    have "sd_lookup p (sd_modify p (remove1 x) d) = Some []"
      using assms True by (simp add: sd_lookup_modify)
    moreover have "sorted_wrt (<) (map fst (sd_modify p (remove1 x) d))"
      using assms(1) by simp
    ultimately have "side_total h (sd_delitem p (sd_modify p (remove1 x) d))
        = side_total h (sd_modify p (remove1 x) d) - level_size h []"
      using side_total_delitem by blast
    with True m show ?thesis by (simp add: take_out_def l)
  next
    case False
    with m show ?thesis by (simp add: take_out_def l)
  qed
qed

lemma pop_is_take_out:
  assumes "sorted_wrt (<) (map fst d)" and "sd_lookup k d = Some (m # rest)"
  shows "sd_modify k tl d = sd_modify k (remove1 m) d"
proof -
  have u: "\<And>kv. kv \<in> set d \<Longrightarrow> fst kv = k \<Longrightarrow> snd kv = m # rest"
  proof -
    fix kv assume "kv \<in> set d" "fst kv = k"
    with assms have "kv = (k, m # rest)" by (rule sd_unique)
    then show "snd kv = m # rest" by simp
  qed
  show ?thesis
    unfolding sd_modify_def by (rule map_cong) (auto dest: u)
qed

lemma level_ok_cong:
  "next_ref w' = next_ref w \<Longrightarrow> \<forall>x \<in> set (snd kv). heap w' x = heap w x \<Longrightarrow>
   level_ok sd w' kv = level_ok sd w kv"
  by (auto simp: level_ok_def)

lemma side_invD:
  assumes "side_inv sd w" and "kv \<in> set (side_dict sd (book w))" and "x \<in> set (snd kv)"
  shows "x < next_ref w" and "side (heap w x) = sd" and "convert_price (heap w x) = fst kv"
    and "0 < size_d (heap w x)"
    and "status (heap w x) = POSTED \<or> status (heap w x) = PARTIALLY_FILLED"
    and "snd kv \<noteq> []" and "distinct (snd kv)"
  using assms by (auto simp: side_inv_def level_ok_def)

lemma side_inv_lookup:
  assumes "side_inv sd w" and "x \<in> side_refs (side_dict sd (book w))"
  shows "side (heap w x) = sd"
    and "\<exists>q. sd_lookup (convert_price (heap w x)) (side_dict sd (book w)) = Some q \<and> x \<in> set q"
proof -
  from assms(2) obtain kv where kv: "kv \<in> set (side_dict sd (book w))" "x \<in> set (snd kv)"
    by (auto simp: side_refs_def)
  from side_invD [OF assms(1) kv] show "side (heap w x) = sd" by simp
  from side_invD(3) [OF assms(1) kv] kv(1)
  have "(convert_price (heap w x), snd kv) \<in> set (side_dict sd (book w))" by simp
  moreover from assms(1) have "sorted_wrt (<) (map fst (side_dict sd (book w)))"
    by (simp add: side_inv_def)
  ultimately have "sd_lookup (convert_price (heap w x)) (side_dict sd (book w)) = Some (snd kv)"
    by (simp add: sd_lookup_unique)
  with kv(2) show "\<exists>q. sd_lookup (convert_price (heap w x)) (side_dict sd (book w)) = Some q \<and> x \<in> set q"
    by blast
qed

text \<open>Taking a resting order out of its level, whatever happens to its own record.\<close>

lemma side_inv_take_out:
  assumes inv: "side_inv sd w"
    and q: "sd_lookup p (side_dict sd (book w)) = Some q" and x: "x \<in> set q"
    and n: "next_ref w' = next_ref w"
    and d': "side_dict sd (book w') = take_out p x (side_dict sd (book w))"
    and h: "\<forall>y \<in> side_refs (side_dict sd (book w)) - {x}. heap w' y = heap w y"
  shows "side_inv sd w'"
    and "side_refs (side_dict sd (book w')) = side_refs (side_dict sd (book w)) - {x}"
    and "side_total (heap w') (side_dict sd (book w'))
       = side_total (heap w) (side_dict sd (book w)) - size_d (heap w x)"
proof -
  let ?d = "side_dict sd (book w)"
  from inv have srt: "sorted_wrt (<) (map fst ?d)" by (simp add: side_inv_def)
  have pq: "(p, q) \<in> set ?d" using q by (rule sd_lookup_in)
  have dq: "distinct q" using side_invD(7) [OF inv pq] x by simp
  have xr: "x \<notin> set (remove1 x q)" using dq by simp
  have other: "\<And>kv. kv \<in> set ?d \<Longrightarrow> kv \<noteq> (p, q) \<Longrightarrow> x \<notin> set (snd kv)"
  proof
    fix kv assume kv: "kv \<in> set ?d" "kv \<noteq> (p, q)" "x \<in> set (snd kv)"
    from side_invD(3) [OF inv kv(1) kv(3)] side_invD(3) [OF inv pq] x
    have "fst kv = p" by simp
    with srt q kv(1) have "kv = (p, q)" by (rule sd_unique)
    with kv(2) show False by simp
  qed
  have sets: "set (side_dict sd (book w')) =
      (set ?d - {(p, q)}) \<union> (if remove1 x q = [] then {} else {(p, remove1 x q)})"
    unfolding d' by (rule set_take_out [OF srt q])
  show refs: "side_refs (side_dict sd (book w')) = side_refs ?d - {x}"
  proof
    show "side_refs (side_dict sd (book w')) \<subseteq> side_refs ?d - {x}"
    proof
      fix y assume "y \<in> side_refs (side_dict sd (book w'))"
      then obtain kv where kv: "kv \<in> set (side_dict sd (book w'))" "y \<in> set (snd kv)"
        by (auto simp: side_refs_def)
      show "y \<in> side_refs ?d - {x}"
      proof (cases "kv \<in> set ?d - {(p, q)}")
        case True
        with other [of kv] kv(2) have "y \<noteq> x" by auto
        with True kv(2) show ?thesis by (auto simp: side_refs_def)
      next
        case False
        with kv(1) sets have "kv = (p, remove1 x q)" by (auto split: if_splits)
        with kv(2) have "y \<in> set (remove1 x q)" by simp
        with xr set_remove1_subset [of x q] have "y \<noteq> x" and "y \<in> set q" by auto
        with pq show ?thesis by (force simp: side_refs_def)
      qed
    qed
    show "side_refs ?d - {x} \<subseteq> side_refs (side_dict sd (book w'))"
    proof
      fix y assume "y \<in> side_refs ?d - {x}"
      then obtain kv where kv: "kv \<in> set ?d" "y \<in> set (snd kv)" "y \<noteq> x"
        by (auto simp: side_refs_def)
      show "y \<in> side_refs (side_dict sd (book w'))"
      proof (cases "kv = (p, q)")
        case True
        with kv have "y \<in> set (remove1 x q)" by simp
        then show ?thesis unfolding side_refs_def sets by (auto split: if_splits)
      next
        case False
        with kv show ?thesis unfolding side_refs_def sets by auto
      qed
    qed
  qed
  show "side_inv sd w'"
    unfolding side_inv_def
  proof (intro conjI ballI)
    show "sorted_wrt (<) (map fst (side_dict sd (book w')))"
      unfolding d' using srt by (rule sorted_take_out)
  next
    fix kv assume kv': "kv \<in> set (side_dict sd (book w'))"
    have same: "\<forall>y \<in> set (snd kv). heap w' y = heap w y"
    proof
      fix y assume "y \<in> set (snd kv)"
      with kv' have "y \<in> side_refs (side_dict sd (book w'))" by (auto simp: side_refs_def)
      with refs h show "heap w' y = heap w y" by simp
    qed
    have "level_ok sd w kv"
    proof (cases "kv \<in> set ?d")
      case True
      with inv show ?thesis by (simp add: side_inv_def)
    next
      case False
      with kv' sets have kv: "kv = (p, remove1 x q)" and ne: "remove1 x q \<noteq> []"
        by (auto split: if_splits)
      from inv pq have "level_ok sd w (p, q)" by (simp add: side_inv_def)
      moreover have "set (remove1 x q) \<subseteq> set q" by (rule set_remove1_subset)
      moreover have "distinct q \<Longrightarrow> distinct (remove1 x q)" by simp
      ultimately show ?thesis
        unfolding kv level_ok_def using ne by (simp add: subset_iff)
    qed
    with same n level_ok_cong [of w' w kv sd] show "level_ok sd w' kv" by simp
  qed
  have "side_total (heap w') (side_dict sd (book w')) = side_total (heap w) (side_dict sd (book w'))"
  proof (rule side_total_cong, intro ballI)
    fix kv y assume "kv \<in> set (side_dict sd (book w'))" "y \<in> set (snd kv)"
    then have "y \<in> side_refs (side_dict sd (book w'))" by (auto simp: side_refs_def)
    with refs h show "size_d (heap w' y) = size_d (heap w y)" by simp
  qed
  also have "\<dots> = side_total (heap w) ?d - size_d (heap w x)"
    unfolding d' by (rule side_total_take_out [OF srt q x])
  finally show "side_total (heap w') (side_dict sd (book w'))
       = side_total (heap w) ?d - size_d (heap w x)" .
qed

text \<open>A side that an operation does not touch, with records changed outside of it only.\<close>

lemma side_inv_frame:
  assumes "side_inv sd w"
    and "next_ref w' = next_ref w"
    and "side_dict sd (book w') = side_dict sd (book w)"
    and "\<forall>y \<in> side_refs (side_dict sd (book w)). heap w' y = heap w y"
  shows "side_inv sd w'"
    and "side_total (heap w') (side_dict sd (book w')) = side_total (heap w) (side_dict sd (book w))"
proof -
  show "side_inv sd w'"
    unfolding side_inv_def
  proof (intro conjI ballI)
    show "sorted_wrt (<) (map fst (side_dict sd (book w')))"
      using assms(1,3) by (simp add: side_inv_def)
  next
    fix kv assume kv: "kv \<in> set (side_dict sd (book w'))"
    with assms(4) have "\<forall>y \<in> set (snd kv). heap w' y = heap w y"
      unfolding assms(3) by (auto simp: side_refs_def)
    moreover from kv assms(1,3) have "level_ok sd w kv" by (simp add: side_inv_def)
    ultimately show "level_ok sd w' kv"
      using level_ok_cong [of w' w kv sd] assms(2) by simp
  qed
  show "side_total (heap w') (side_dict sd (book w')) = side_total (heap w) (side_dict sd (book w))"
    unfolding assms(3) using assms(4)
    by (intro side_total_cong) (auto simp: side_refs_def)
qed

lemma side_dict_book_update [simp]:
  "side_dict sd (b\<lparr>order_count := n\<rparr>) = side_dict sd b"
  "side_dict sd (b\<lparr>last_order := l\<rparr>) = side_dict sd b"
  by (simp_all add: side_dict_def)

lemma match_step_cases [case_names empty stop raise less greater equal]:
  fixes sd p r w
  defines "d \<equiv> side_dict (opposite sd) (book w)"
  obtains "d = []" and "match_step sd p r w = Return w"
  | k q where "d \<noteq> []" and "last d = (k, q)" and "\<not> condition sd p \<bar>k\<bar>"
      and "match_step sd p r w = Return w"
  | k where "d \<noteq> []" and "last d = (k, [])" and "condition sd p \<bar>k\<bar>"
      and "match_step sd p r w = Raise IndexError w"
  | k m rest w' where "d \<noteq> []" and "last d = (k, m # rest)" and "condition sd p \<bar>k\<bar>"
      and "size_d (heap w m) < size_d (heap w r)"
      and "match_step sd p r w = Continue w'"
      and "next_ref w' = next_ref w"
      and "heap w' = (heap w)
             (r := (heap w r)\<lparr>size_d := size_d (heap w r) - size_d (heap w m),
                               status := PARTIALLY_FILLED\<rparr>,
              m := (heap w m)\<lparr>size_d := 0, status := FILLED\<rparr>)"
      and "side_dict (opposite sd) (book w') =
             (if rest = [] then sd_delitem k (sd_modify k tl d) else sd_modify k tl d)"
      and "side_dict sd (book w') = side_dict sd (book w)"
  | k m rest w' where "d \<noteq> []" and "last d = (k, m # rest)" and "condition sd p \<bar>k\<bar>"
      and "size_d (heap w r) < size_d (heap w m)"
      and "match_step sd p r w = Return w'"
      and "next_ref w' = next_ref w"
      and "heap w' = (heap w)
             (m := (heap w m)\<lparr>size_d := size_d (heap w m) - size_d (heap w r),
                               status := PARTIALLY_FILLED\<rparr>,
              r := (heap w r)\<lparr>size_d := 0, status := FILLED\<rparr>)"
      and "book w' = book w"
  | k m rest w' where "d \<noteq> []" and "last d = (k, m # rest)" and "condition sd p \<bar>k\<bar>"
      and "size_d (heap w r) = size_d (heap w m)"
      and "match_step sd p r w = Return w'"
      and "next_ref w' = next_ref w"
      and "r \<noteq> m \<Longrightarrow> heap w' = (heap w)
             (m := (heap w m)\<lparr>size_d := 0, status := FILLED\<rparr>,
              r := (heap w r)\<lparr>size_d := 0, status := FILLED\<rparr>)"
      and "side_dict (opposite sd) (book w') =
             (if rest = [] then sd_delitem k (sd_modify k tl d) else sd_modify k tl d)"
      and "side_dict sd (book w') = side_dict sd (book w)"
proof (cases "d = []")
  case True
  then have "match_step sd p r w = Return w"
    by (simp add: match_step_def d_def)
  with True show ?thesis by (rule that(1))
next
  case ne: False
  obtain k q where top: "last d = (k, q)" by (cases "last d")
  show ?thesis
  proof (cases "condition sd p \<bar>k\<bar>")
    case False
    with ne top have "match_step sd p r w = Return w"
      by (simp add: match_step_def d_def [symmetric] peekitem_def)
    with ne top False show ?thesis by (rule that(2))
  next
    case cond: True
    show ?thesis
    proof (cases q)
      case Nil
      with ne top cond have "match_step sd p r w = Raise IndexError w"
        by (simp add: match_step_def d_def [symmetric] peekitem_def)
      with ne top cond Nil show ?thesis using that(3) by simp
    next
      case (Cons m rest)
      note top' = top [unfolded Cons]
      have sdo: "side_dict sd (book (set_side_dict (opposite sd) x u)) = side_dict sd (book u)" for x u
        by (cases sd) simp_all
      consider "size_d (heap w m) < size_d (heap w r)" | "size_d (heap w r) < size_d (heap w m)"
        | "size_d (heap w r) = size_d (heap w m)" by linarith
      then show ?thesis
      proof cases
        case 1
        then have rm: "r \<noteq> m" by auto
        define w' where "w' = update_status m FILLED (update_status r PARTIALLY_FILLED
          ((if length rest = 0
            then set_side_dict (opposite sd) (sd_delitem k (sd_modify k tl d))
            else (\<lambda>u. u))
           (set_size m 0 (set_size r (size_d (heap w r) - size_d (heap w m))
              (set_side_dict (opposite sd) (sd_modify k tl d) w)))))"
        have st: "match_step sd p r w = Continue w'"
          using ne top' cond 1 rm
          by (simp add: match_step_def d_def [symmetric] peekitem_def Let_def w'_def)
        have "heap w' = (heap w)
             (r := (heap w r)\<lparr>size_d := size_d (heap w r) - size_d (heap w m),
                               status := PARTIALLY_FILLED\<rparr>,
              m := (heap w m)\<lparr>size_d := 0, status := FILLED\<rparr>)"
          using rm by (auto simp: w'_def fun_eq_iff)
        moreover have "side_dict (opposite sd) (book w') =
             (if rest = [] then sd_delitem k (sd_modify k tl d) else sd_modify k tl d)"
          by (simp add: w'_def)
        moreover have "side_dict sd (book w') = side_dict sd (book w)"
          by (simp add: w'_def sdo)
        moreover have "next_ref w' = next_ref w" by (simp add: w'_def)
        ultimately show ?thesis using that(4) [OF ne top' cond 1 st] by blast
      next
        case 2
        then have rm: "r \<noteq> m" by auto
        define w' where "w' = update_status r FILLED (update_status m PARTIALLY_FILLED
           (set_size r 0 (set_size m (size_d (heap w m) - size_d (heap w r)) w)))"
        have st: "match_step sd p r w = Return w'"
          using ne top' cond 2 rm
          by (simp add: match_step_def d_def [symmetric] peekitem_def Let_def w'_def)
        have "heap w' = (heap w)
             (m := (heap w m)\<lparr>size_d := size_d (heap w m) - size_d (heap w r),
                               status := PARTIALLY_FILLED\<rparr>,
              r := (heap w r)\<lparr>size_d := 0, status := FILLED\<rparr>)"
          using rm by (auto simp: w'_def fun_eq_iff)
        moreover have "book w' = book w" by (simp add: w'_def)
        moreover have "next_ref w' = next_ref w" by (simp add: w'_def)
        ultimately show ?thesis using that(5) [OF ne top' cond 2 st] by blast
      next
        case 3
        define w' where "w' = update_status r FILLED (update_status m FILLED
          ((if length rest = 0
            then set_side_dict (opposite sd) (sd_delitem k (sd_modify k tl d))
            else (\<lambda>u. u))
           (set_size r 0 (set_size m 0
              (set_side_dict (opposite sd) (sd_modify k tl d) w)))))"
        have st: "match_step sd p r w = Return w'"
          using ne top' cond 3
          by (simp add: match_step_def d_def [symmetric] peekitem_def Let_def w'_def)
        have "r \<noteq> m \<Longrightarrow> heap w' = (heap w)
             (m := (heap w m)\<lparr>size_d := 0, status := FILLED\<rparr>,
              r := (heap w r)\<lparr>size_d := 0, status := FILLED\<rparr>)"
          by (auto simp: w'_def fun_eq_iff)
        moreover have "side_dict (opposite sd) (book w') =
             (if rest = [] then sd_delitem k (sd_modify k tl d) else sd_modify k tl d)"
          by (simp add: w'_def)
        moreover have "side_dict sd (book w') = side_dict sd (book w)"
          by (simp add: w'_def sdo)
        moreover have "next_ref w' = next_ref w" by (simp add: w'_def)
        ultimately show ?thesis using that(6) [OF ne top' cond 3 st] by blast
      qed
    qed
  qed
qed

lemma book_inv_sides: "book_inv w \<longleftrightarrow> side_inv sd w \<and> side_inv (opposite sd) w"
  by (cases sd) (auto simp: book_inv_def)

lemma book_refs_by_side:
  "book_refs b = side_refs (side_dict sd b) \<union> side_refs (side_dict (opposite sd) b)"
  by (cases sd) (auto simp: book_refs_sides)

lemma resting_total_by_side:
  "resting_total w = side_total (heap w) (side_dict sd (book w))
                   + side_total (heap w) (side_dict (opposite sd) (book w))"
  by (cases sd) (simp_all add: resting_total_def)

lemma sum_sizes_Suc: "sum_sizes (Suc n) h = sum_sizes n h + size_d (h n)"
  by (simp add: sum_sizes_def)

lemma sum_sizes_upd_beyond: "n \<le> x \<Longrightarrow> sum_sizes n (h(x := v)) = sum_sizes n h"
  by (induction n) (simp_all add: sum_sizes_Suc, simp add: sum_sizes_def)

lemma sum_sizes_upd:
  "x < n \<Longrightarrow> sum_sizes n (h(x := v)) = sum_sizes n h - size_d (h x) + size_d v"
proof (induction n)
  case 0
  then show ?case by simp
next
  case (Suc n)
  show ?case
  proof (cases "x = n")
    case True
    have "sum_sizes (Suc n) (h(x := v)) = sum_sizes n (h(x := v)) + size_d ((h(x := v)) n)"
      by (rule sum_sizes_Suc)
    also have "sum_sizes n (h(x := v)) = sum_sizes n h"
      using True by (intro sum_sizes_upd_beyond) simp
    also have "size_d ((h(x := v)) n) = size_d v" using True by simp
    finally have "sum_sizes (Suc n) (h(x := v)) = sum_sizes n h + size_d v" .
    moreover have "sum_sizes (Suc n) h = sum_sizes n h + size_d (h x)"
      unfolding True by (rule sum_sizes_Suc)
    ultimately show ?thesis by linarith
  next
    case False
    with Suc.prems have "x < n" by simp
    then have "sum_sizes n (h(x := v)) = sum_sizes n h - size_d (h x) + size_d v"
      by (rule Suc.IH)
    moreover have "sum_sizes (Suc n) (h(x := v)) = sum_sizes n (h(x := v)) + size_d ((h(x := v)) n)"
      by (rule sum_sizes_Suc)
    moreover have "size_d ((h(x := v)) n) = size_d (h n)" using False by simp
    moreover have "sum_sizes (Suc n) h = sum_sizes n h + size_d (h n)"
      by (rule sum_sizes_Suc)
    ultimately show ?thesis by linarith
  qed
qed

lemma match_frame_refl: "book_inv w \<Longrightarrow> r \<notin> book_refs (book w) \<Longrightarrow> match_frame r w w"
  by (simp add: match_frame_def)

lemma match_frame_trans:
  "match_frame r w w' \<Longrightarrow> match_frame r w' w'' \<Longrightarrow> match_frame r w w''"
proof -
  assume a: "match_frame r w w'" and b: "match_frame r w' w''"
  from a have a1: "book_refs (book w') \<subseteq> book_refs (book w)" "next_ref w' = next_ref w"
    "side (heap w' r) = side (heap w r)" "price (heap w' r) = price (heap w r)"
    "side_dict (side (heap w r)) (book w') = side_dict (side (heap w r)) (book w)"
    "size_d (heap w' r) \<le> size_d (heap w r)"
    "resting_total w - resting_total w' = size_d (heap w r) - size_d (heap w' r)"
    "sum_sizes (next_ref w) (heap w) - sum_sizes (next_ref w) (heap w')
        = (size_d (heap w r) - size_d (heap w' r)) + (size_d (heap w r) - size_d (heap w' r))"
    by (simp_all add: match_frame_def)
  from b have b1: "book_inv w''" "r \<notin> book_refs (book w'')"
    "book_refs (book w'') \<subseteq> book_refs (book w')" "next_ref w'' = next_ref w'"
    "side (heap w'' r) = side (heap w' r)" "price (heap w'' r) = price (heap w' r)"
    "side_dict (side (heap w' r)) (book w'') = side_dict (side (heap w' r)) (book w')"
    "size_d (heap w'' r) \<le> size_d (heap w' r)"
    "resting_total w' - resting_total w'' = size_d (heap w' r) - size_d (heap w'' r)"
    "sum_sizes (next_ref w') (heap w') - sum_sizes (next_ref w') (heap w'')
        = (size_d (heap w' r) - size_d (heap w'' r)) + (size_d (heap w' r) - size_d (heap w'' r))"
    by (simp_all add: match_frame_def)
  have "book_refs (book w'') \<subseteq> book_refs (book w)" using a1(1) b1(3) by blast
  moreover have "next_ref w'' = next_ref w" using a1(2) b1(4) by simp
  moreover have "side (heap w'' r) = side (heap w r)" using a1(3) b1(5) by simp
  moreover have "price (heap w'' r) = price (heap w r)" using a1(4) b1(6) by simp
  moreover have "side_dict (side (heap w r)) (book w'') = side_dict (side (heap w r)) (book w)"
    using a1(5) b1(7) a1(3) by simp
  moreover have "size_d (heap w'' r) \<le> size_d (heap w r)" using a1(6) b1(8) by linarith
  moreover have "resting_total w - resting_total w'' = size_d (heap w r) - size_d (heap w'' r)"
    using a1(7) b1(9) by linarith
  moreover have "sum_sizes (next_ref w) (heap w) - sum_sizes (next_ref w) (heap w'')
        = (size_d (heap w r) - size_d (heap w'' r)) + (size_d (heap w r) - size_d (heap w'' r))"
    using a1(8) b1(10) unfolding a1(2) by linarith
  ultimately show ?thesis using b1(1,2) unfolding match_frame_def by blast
qed

text \<open>The head of the last level of the opposite side, under the invariant.\<close>

lemma top_order_facts:
  assumes inv: "side_inv sd w" and d: "side_dict sd (book w) \<noteq> []"
    and top: "last (side_dict sd (book w)) = (k, m # rest)"
  shows "sd_lookup k (side_dict sd (book w)) = Some (m # rest)"
    and "m \<in> side_refs (side_dict sd (book w))"
    and "m < next_ref w" and "side (heap w m) = sd" and "0 < size_d (heap w m)"
    and "(if rest = [] then sd_delitem k (sd_modify k tl (side_dict sd (book w)))
         else sd_modify k tl (side_dict sd (book w))) = take_out k m (side_dict sd (book w))"
proof -
  let ?d = "side_dict sd (book w)"
  from inv have srt: "sorted_wrt (<) (map fst ?d)" by (simp add: side_inv_def)
  from d top have mem: "(k, m # rest) \<in> set ?d" by (metis last_in_set)
  from srt mem show look: "sd_lookup k ?d = Some (m # rest)" by (rule sd_lookup_unique)
  from mem show "m \<in> side_refs ?d" by (force simp: side_refs_def)
  from side_invD [OF inv mem, of m]
  show "m < next_ref w" and "side (heap w m) = sd" and "0 < size_d (heap w m)" by simp_all
  have "sd_modify k tl ?d = sd_modify k (remove1 m) ?d"
    using srt look by (rule pop_is_take_out)
  moreover have "level_of ?d k = m # rest" using look by (simp add: level_of_def)
  ultimately show "(if rest = [] then sd_delitem k (sd_modify k tl ?d) else sd_modify k tl ?d)
      = take_out k m ?d"
    by (simp add: take_out_def)
qed

lemma convert_price_cong:
  "side a = side b \<Longrightarrow> price a = price b \<Longrightarrow> convert_price a = convert_price b"
  by (simp add: convert_price_def)

text \<open>A resting order whose record changes while it stays at its place.\<close>

lemma side_inv_update_order:
  assumes inv: "side_inv sd w" and m: "m \<in> side_refs (side_dict sd (book w))"
    and n: "next_ref w' = next_ref w"
    and d: "side_dict sd (book w') = side_dict sd (book w)"
    and h: "\<forall>y \<in> side_refs (side_dict sd (book w)) - {m}. heap w' y = heap w y"
    and hm: "side (heap w' m) = side (heap w m)" "price (heap w' m) = price (heap w m)"
      "0 < size_d (heap w' m)"
      "status (heap w' m) = POSTED \<or> status (heap w' m) = PARTIALLY_FILLED"
  shows "side_inv sd w'"
    and "side_total (heap w') (side_dict sd (book w'))
       = side_total (heap w) (side_dict sd (book w)) - size_d (heap w m) + size_d (heap w' m)"
proof -
  let ?d = "side_dict sd (book w)"
  from inv have srt: "sorted_wrt (<) (map fst ?d)" by (simp add: side_inv_def)
  have cp: "convert_price (heap w' m) = convert_price (heap w m)"
    using hm(1,2) by (rule convert_price_cong)
  show "side_inv sd w'"
    unfolding side_inv_def d
  proof (intro conjI ballI)
    show "sorted_wrt (<) (map fst ?d)" by (rule srt)
  next
    fix kv assume kv: "kv \<in> set ?d"
    with inv have ok: "level_ok sd w kv" by (simp add: side_inv_def)
    have "\<And>y. y \<in> set (snd kv) \<Longrightarrow> y \<noteq> m \<Longrightarrow> heap w' y = heap w y"
      using h kv by (auto simp: side_refs_def)
    then show "level_ok sd w' kv"
      using ok n hm cp unfolding level_ok_def
      by (metis)
  qed
  from side_inv_lookup [OF inv m] obtain q
    where q: "sd_lookup (convert_price (heap w m)) ?d = Some q" and mq: "m \<in> set q"
    by blast
  let ?p = "convert_price (heap w m)"
  let ?d2 = "take_out ?p m ?d"
  let ?w2 = "set_side_dict sd ?d2 w"
  have "side_refs (side_dict sd (book ?w2)) = side_refs ?d - {m}"
    by (rule side_inv_take_out(2) [OF inv q mq]) simp_all
  then have refs2: "side_refs ?d2 = side_refs ?d - {m}" by simp
  have "side_total (heap w') ?d2 = side_total (heap w) ?d2"
  proof (rule side_total_cong, intro ballI)
    fix kv y assume "kv \<in> set ?d2" "y \<in> set (snd kv)"
    then have "y \<in> side_refs ?d2" by (auto simp: side_refs_def)
    with refs2 h show "size_d (heap w' y) = size_d (heap w y)" by simp
  qed
  moreover have "side_total (heap w') ?d2 = side_total (heap w') ?d - size_d (heap w' m)"
    using srt q mq by (rule side_total_take_out)
  moreover have "side_total (heap w) ?d2 = side_total (heap w) ?d - size_d (heap w m)"
    using srt q mq by (rule side_total_take_out)
  ultimately show "side_total (heap w') (side_dict sd (book w'))
       = side_total (heap w) ?d - size_d (heap w m) + size_d (heap w' m)"
    unfolding d by linarith
qed

lemma sum_sizes_two:
  assumes "r \<noteq> m" and "r < n" and "m < n"
    and "\<forall>y. y \<noteq> r \<longrightarrow> y \<noteq> m \<longrightarrow> h' y = h y"
  shows "sum_sizes n h' = sum_sizes n h - size_d (h r) - size_d (h m)
           + size_d (h' r) + size_d (h' m)"
proof -
  have "h' = (h(r := h' r))(m := h' m)"
    using assms(4) by (auto simp: fun_eq_iff)
  then have "sum_sizes n h' = sum_sizes n ((h(r := h' r))(m := h' m))" by simp
  also have "\<dots> = sum_sizes n (h(r := h' r)) - size_d ((h(r := h' r)) m) + size_d (h' m)"
    using assms(3) by (rule sum_sizes_upd)
  also have "sum_sizes n (h(r := h' r)) = sum_sizes n h - size_d (h r) + size_d (h' r)"
    using assms(2) by (rule sum_sizes_upd)
  also have "size_d ((h(r := h' r)) m) = size_d (h m)" using assms(1) by simp
  finally show ?thesis by linarith
qed

text \<open>
  The rounds that take the head of the top level off the book: the incoming order
  loses the size of the head, which goes to zero.
\<close>

lemma pop_head_frame:
  assumes inv: "book_inv w" and fresh: "r \<notin> book_refs (book w)" and rn: "r < next_ref w"
    and sd: "side (heap w r) = sd"
    and ne: "side_dict (opposite sd) (book w) \<noteq> []"
    and top: "last (side_dict (opposite sd) (book w)) = (k, m # rest)"
    and le: "size_d (heap w m) \<le> size_d (heap w r)"
    and n: "next_ref w' = next_ref w"
    and od: "side_dict (opposite sd) (book w') =
       (if rest = [] then sd_delitem k (sd_modify k tl (side_dict (opposite sd) (book w)))
        else sd_modify k tl (side_dict (opposite sd) (book w)))"
    and sdd: "side_dict sd (book w') = side_dict sd (book w)"
    and h: "\<forall>y. y \<noteq> r \<longrightarrow> y \<noteq> m \<longrightarrow> heap w' y = heap w y"
    and hm: "size_d (heap w' m) = 0"
    and hr: "size_d (heap w' r) = size_d (heap w r) - size_d (heap w m)"
      "side (heap w' r) = side (heap w r)" "price (heap w' r) = price (heap w r)"
  shows "match_frame r w w'"
proof -
  let ?o = "opposite sd"
  let ?d = "side_dict ?o (book w)"
  from inv have io: "side_inv ?o w" and iown: "side_inv sd w"
    using book_inv_sides [of w sd] by simp_all
  note tf = top_order_facts [OF io ne top]
  have refs: "book_refs (book w) = side_refs (side_dict sd (book w)) \<union> side_refs ?d"
    by (rule book_refs_by_side)
  from tf(2) fresh refs have rm: "r \<noteq> m" by auto
  have m_own: "m \<notin> side_refs (side_dict sd (book w))"
  proof
    assume "m \<in> side_refs (side_dict sd (book w))"
    with iown have "side (heap w m) = sd" by (rule side_inv_lookup(1))
    with tf(4) show False by (cases sd) simp_all
  qed
  have od': "side_dict ?o (book w') = take_out k m ?d"
    unfolding od by (rule tf(6))
  have ho: "\<forall>y \<in> side_refs ?d - {m}. heap w' y = heap w y"
    using h fresh refs by auto
  note opp = side_inv_take_out [OF io tf(1) _ n od' ho, simplified]
  have hs: "\<forall>y \<in> side_refs (side_dict sd (book w)). heap w' y = heap w y"
    using h fresh refs m_own by auto
  note own = side_inv_frame [OF iown n sdd hs]
  have binv: "book_inv w'"
    using own(1) opp(1) book_inv_sides [of w' sd] by simp
  have refs': "book_refs (book w') = side_refs (side_dict sd (book w)) \<union> (side_refs ?d - {m})"
    using book_refs_by_side [of "book w'" sd] opp(2) sdd by simp
  have t: "resting_total w' = resting_total w - size_d (heap w m)"
    using resting_total_by_side [of w' sd] resting_total_by_side [of w sd] own(2) opp(3)
    by linarith
  have s: "sum_sizes (next_ref w) (heap w') = sum_sizes (next_ref w) (heap w)
      - size_d (heap w r) - size_d (heap w m) + size_d (heap w' r) + size_d (heap w' m)"
    using rm rn tf(3) h by (rule sum_sizes_two)
  show ?thesis
    unfolding match_frame_def
  proof (intro conjI)
    show "book_inv w'" by (rule binv)
    show "r \<notin> book_refs (book w')" using fresh refs refs' by auto
    show "book_refs (book w') \<subseteq> book_refs (book w)" using refs refs' by auto
    show "next_ref w' = next_ref w" by (rule n)
    show "side (heap w' r) = side (heap w r)" by (rule hr(2))
    show "price (heap w' r) = price (heap w r)" by (rule hr(3))
    show "side_dict (side (heap w r)) (book w') = side_dict (side (heap w r)) (book w)"
      using sdd sd by simp
    show "size_d (heap w' r) \<le> size_d (heap w r)" using hr(1) tf(5) by linarith
    show "resting_total w - resting_total w' = size_d (heap w r) - size_d (heap w' r)"
      using t hr(1) by linarith
    show "sum_sizes (next_ref w) (heap w) - sum_sizes (next_ref w) (heap w')
        = (size_d (heap w r) - size_d (heap w' r)) + (size_d (heap w r) - size_d (heap w' r))"
      using s hr(1) hm by linarith
  qed
qed

text \<open>The round that fills the incoming order from a larger head, which stays.\<close>

lemma shrink_head_frame:
  assumes inv: "book_inv w" and fresh: "r \<notin> book_refs (book w)" and rn: "r < next_ref w"
    and sd: "side (heap w r) = sd"
    and ne: "side_dict (opposite sd) (book w) \<noteq> []"
    and top: "last (side_dict (opposite sd) (book w)) = (k, m # rest)"
    and lt: "size_d (heap w r) < size_d (heap w m)" and pos: "0 \<le> size_d (heap w r)"
    and n: "next_ref w' = next_ref w"
    and bk: "book w' = book w"
    and hp: "heap w' = (heap w)
             (m := (heap w m)\<lparr>size_d := size_d (heap w m) - size_d (heap w r),
                               status := PARTIALLY_FILLED\<rparr>,
              r := (heap w r)\<lparr>size_d := 0, status := FILLED\<rparr>)"
  shows "match_frame r w w'"
proof -
  let ?o = "opposite sd"
  let ?d = "side_dict ?o (book w)"
  from inv have io: "side_inv ?o w" and iown: "side_inv sd w"
    using book_inv_sides [of w sd] by simp_all
  note tf = top_order_facts [OF io ne top]
  have refs: "book_refs (book w) = side_refs (side_dict sd (book w)) \<union> side_refs ?d"
    by (rule book_refs_by_side)
  from tf(2) fresh refs have rm: "r \<noteq> m" by auto
  have m_own: "m \<notin> side_refs (side_dict sd (book w))"
  proof
    assume "m \<in> side_refs (side_dict sd (book w))"
    with iown have "side (heap w m) = sd" by (rule side_inv_lookup(1))
    with tf(4) show False by (cases sd) simp_all
  qed
  have h: "\<forall>y. y \<noteq> r \<longrightarrow> y \<noteq> m \<longrightarrow> heap w' y = heap w y"
    by (simp add: hp)
  have hm: "heap w' m = (heap w m)\<lparr>size_d := size_d (heap w m) - size_d (heap w r),
                               status := PARTIALLY_FILLED\<rparr>"
    using rm by (simp add: hp)
  have hr: "heap w' r = (heap w r)\<lparr>size_d := 0, status := FILLED\<rparr>"
    by (simp add: hp)
  have ho: "\<forall>y \<in> side_refs ?d - {m}. heap w' y = heap w y"
    using h fresh refs by auto
  have d_o: "side_dict ?o (book w') = ?d" by (simp add: bk)
  have d_s: "side_dict sd (book w') = side_dict sd (book w)" by (simp add: bk)
  have "side_inv ?o w'"
    by (rule side_inv_update_order(1) [OF io tf(2) n d_o ho]) (simp_all add: hm lt)
  moreover have to: "side_total (heap w') (side_dict ?o (book w'))
       = side_total (heap w) ?d - size_d (heap w m) + size_d (heap w' m)"
    by (rule side_inv_update_order(2) [OF io tf(2) n d_o ho]) (simp_all add: hm lt)
  have hs: "\<forall>y \<in> side_refs (side_dict sd (book w)). heap w' y = heap w y"
    using h fresh refs m_own by auto
  note own = side_inv_frame [OF iown n d_s hs]
  ultimately have binv: "book_inv w'"
    using book_inv_sides [of w' sd] by simp
  have t: "resting_total w' = resting_total w - size_d (heap w m) + size_d (heap w' m)"
    using resting_total_by_side [of w' sd] resting_total_by_side [of w sd] own(2) to
    by linarith
  have s: "sum_sizes (next_ref w) (heap w') = sum_sizes (next_ref w) (heap w)
      - size_d (heap w r) - size_d (heap w m) + size_d (heap w' r) + size_d (heap w' m)"
    using rm rn tf(3) h by (rule sum_sizes_two)
  have sm: "size_d (heap w' m) = size_d (heap w m) - size_d (heap w r)" by (simp add: hm)
  have sr: "size_d (heap w' r) = 0" by (simp add: hr)
  show ?thesis
    unfolding match_frame_def
  proof (intro conjI)
    show "book_inv w'" by (rule binv)
    show "r \<notin> book_refs (book w')" using fresh by (simp add: bk)
    show "book_refs (book w') \<subseteq> book_refs (book w)" by (simp add: bk)
    show "next_ref w' = next_ref w" by (rule n)
    show "side (heap w' r) = side (heap w r)" by (simp add: hr)
    show "price (heap w' r) = price (heap w r)" by (simp add: hr)
    show "side_dict (side (heap w r)) (book w') = side_dict (side (heap w r)) (book w)"
      by (simp add: bk)
    show "size_d (heap w' r) \<le> size_d (heap w r)" using sr pos by linarith
    show "resting_total w - resting_total w' = size_d (heap w r) - size_d (heap w' r)"
      using t sm sr by linarith
    show "sum_sizes (next_ref w) (heap w) - sum_sizes (next_ref w) (heap w')
        = (size_d (heap w r) - size_d (heap w' r)) + (size_d (heap w r) - size_d (heap w' r))"
      using s sm sr by linarith
  qed
qed

lemma match_step_inv:
  assumes inv: "book_inv w" and fresh: "r \<notin> book_refs (book w)" and rn: "r < next_ref w"
    and sd: "side (heap w r) = sd" and lv: "live r w"
  shows "(\<exists>w'. match_step sd p r w = Continue w' \<and> match_frame r w w' \<and> live r w')
       \<or> (\<exists>w'. match_step sd p r w = Return w' \<and> match_frame r w w' \<and>
              (live r w' \<or> size_d (heap w' r) = 0))"
proof (cases rule: match_step_cases [of sd w p r])
  case empty
  with inv fresh lv show ?thesis by (simp add: match_frame_refl)
next
  case (stop k q)
  with inv fresh lv show ?thesis by (simp add: match_frame_refl)
next
  case (raise k)
  from inv have "side_inv (opposite sd) w" using book_inv_sides [of w sd] by simp
  moreover from raise(1,2) have "(k, []) \<in> set (side_dict (opposite sd) (book w))"
    by (metis last_in_set)
  ultimately have "level_ok (opposite sd) w (k, [])" by (simp add: side_inv_def)
  then show ?thesis by (simp add: level_ok_def)
next
  case (less k m rest w')
  have "match_frame r w w'"
    by (rule pop_head_frame [OF inv fresh rn sd less(1,2) _ less(6) less(8,9)])
       (use less(4) in \<open>auto simp: less(7)\<close>)
  moreover have "live r w'"
    using less(4) inv less(1,2) top_order_facts(5) [of "opposite sd" w k m rest]
      book_inv_sides [of w sd]
    by (auto simp: live_def less(7))
  ultimately show ?thesis using less(5) by simp
next
  case (greater k m rest w')
  from lv have "0 \<le> size_d (heap w r)" by (simp add: live_def)
  then have "match_frame r w w'"
    by (rule shrink_head_frame [OF inv fresh rn sd greater(1,2,4) _ greater(6,8,7)])
  moreover have "size_d (heap w' r) = 0" by (simp add: greater(7))
  ultimately show ?thesis using greater(5) by simp
next
  case (equal k m rest w')
  from inv have io: "side_inv (opposite sd) w" using book_inv_sides [of w sd] by simp
  from top_order_facts(2) [OF io equal(1,2)] fresh
  have rm: "r \<noteq> m" using book_refs_by_side [of "book w" sd] by auto
  note hp = equal(7) [OF rm]
  have "match_frame r w w'"
    by (rule pop_head_frame [OF inv fresh rn sd equal(1,2) _ equal(6) equal(8,9)])
       (use equal(4) rm in \<open>auto simp: hp\<close>)
  moreover have "size_d (heap w' r) = 0" by (simp add: hp)
  ultimately show ?thesis using equal(5) by simp
qed

lemma match_loop_inv:
  assumes "book_inv w" and "r \<notin> book_refs (book w)" and "r < next_ref w"
    and "side (heap w r) = sd" and "live r w"
  shows "\<exists>w'. match_loop sd p r w = (Inr (), w') \<and> match_frame r w w' \<and>
           (live r w' \<or> size_d (heap w' r) = 0)"
  using assms
proof (induction sd p r w rule: match_loop.induct)
  case (1 sd p r w)
  from match_step_inv [OF "1.prems", of p]
  consider (cont) w1 where "match_step sd p r w = Continue w1" "match_frame r w w1" "live r w1"
    | (ret) w1 where "match_step sd p r w = Return w1" "match_frame r w w1"
        "live r w1 \<or> size_d (heap w1 r) = 0"
    by blast
  then show ?case
  proof cases
    case cont
    note st = cont(1) and fr = cont(2) and lv = cont(3)
    from fr have p1: "book_inv w1" "r \<notin> book_refs (book w1)" "next_ref w1 = next_ref w"
      "side (heap w1 r) = side (heap w r)"
      by (simp_all add: match_frame_def)
    from "1.IH" [OF st p1(1,2)] p1(3,4) "1.prems"(3,4) lv
    obtain w' where l: "match_loop sd p r w1 = (Inr (), w')" and fr': "match_frame r w1 w'"
      and fin: "live r w' \<or> size_d (heap w' r) = 0"
      by auto
    from fr fr' have "match_frame r w w'" by (rule match_frame_trans)
    moreover have "match_loop sd p r w = (Inr (), w')"
      using st l by (simp add: match_loop.simps [of sd p r w])
    ultimately show ?thesis using fin by blast
  next
    case ret
    note st = ret(1) and fr = ret(2) and fin = ret(3)
    have "match_loop sd p r w = (Inr (), w1)"
      using st by (simp add: match_loop.simps [of sd p r w])
    with fr fin show ?thesis by blast
  qed
qed

lemma side_if [simp]: "(if s = BUY then BUY else SELL) = s"
  by (cases s) simp_all

lemma rest_order_fields [simp]:
  "heap (rest_order r w) = heap w"
  "next_ref (rest_order r w) = next_ref w"
  "delivered (rest_order r w) = delivered w"
  "side_dict (opposite (side (heap w r))) (book (rest_order r w))
     = side_dict (opposite (side (heap w r))) (book w)"
  by (simp_all add: rest_order_def Let_def)

lemma rest_order_level:
  "level_of (side_dict (side (heap w r)) (book (rest_order r w))) (convert_price (heap w r))
     = level_of (side_dict (side (heap w r)) (book w)) (convert_price (heap w r)) @ [r]"
  by (simp add: rest_order_def Let_def level_of_def sd_lookup_modify sd_setdefault_def
        sd_lookup_insert split: option.splits)

lemma rest_order_other_levels:
  "k \<noteq> convert_price (heap w r) \<Longrightarrow>
   level_of (side_dict (side (heap w r)) (book (rest_order r w))) k
     = level_of (side_dict (side (heap w r)) (book w)) k"
  by (simp add: rest_order_def Let_def level_of_def sd_lookup_modify sd_setdefault_def
        sd_lookup_insert split: option.splits)

lemma rest_order_inv:
  assumes inv: "book_inv w" and fresh: "r \<notin> book_refs (book w)" and rn: "r < next_ref w"
    and lv: "live r w"
  shows "book_inv (rest_order r w)"
    and "book_refs (book (rest_order r w)) = insert r (book_refs (book w))"
    and "resting_total (rest_order r w) = resting_total w + size_d (heap w r)"
proof -
  let ?sd = "side (heap w r)"
  let ?p = "convert_price (heap w r)"
  let ?d = "side_dict ?sd (book w)"
  let ?w' = "rest_order r w"
  define q0 where "q0 = level_of ?d ?p"
  define d1 where "d1 = (case sd_lookup ?p ?d of Some q \<Rightarrow> ?d | None \<Rightarrow> sd_setdefault ?p [] ?d)"
  have d': "side_dict ?sd (book ?w') = sd_modify ?p (\<lambda>q. q @ [r]) d1"
    by (simp add: rest_order_def Let_def d1_def)
  from inv have iown: "side_inv ?sd w" and io: "side_inv (opposite ?sd) w"
    using book_inv_sides [of w ?sd] by simp_all
  from iown have srt: "sorted_wrt (<) (map fst ?d)" by (simp add: side_inv_def)
  have refs: "book_refs (book w) = side_refs ?d \<union> side_refs (side_dict (opposite ?sd) (book w))"
    by (rule book_refs_by_side)
  have srt1: "sorted_wrt (<) (map fst d1)"
    using srt by (auto simp: d1_def sd_setdefault_def sd_lookup_None intro: sorted_sd_insert
        split: option.splits)
  have look1: "sd_lookup ?p d1 = Some q0"
    by (simp add: d1_def q0_def level_of_def sd_setdefault_def sd_lookup_insert
        split: option.splits)
  have set1: "set d1 - {(?p, q0)} = set ?d - {(?p, q0)}"
    by (auto simp: d1_def q0_def level_of_def sd_setdefault_def split: option.splits)
  have tot1: "side_total (heap w) d1 = side_total (heap w) ?d"
    by (simp add: d1_def sd_setdefault_def split: option.splits)
  have q0_ok: "distinct q0 \<and> r \<notin> set q0 \<and> set q0 \<subseteq> side_refs ?d \<and>
      (\<forall>y \<in> set q0. y < next_ref w \<and> side (heap w y) = ?sd \<and> convert_price (heap w y) = ?p \<and>
         0 < size_d (heap w y) \<and>
         (status (heap w y) = POSTED \<or> status (heap w y) = PARTIALLY_FILLED))"
  proof (cases "sd_lookup ?p ?d")
    case None
    then show ?thesis by (simp add: q0_def level_of_def)
  next
    case (Some q)
    then have q: "q0 = q" and mem: "(?p, q) \<in> set ?d"
      by (simp_all add: q0_def level_of_def sd_lookup_in)
    from iown mem have "level_ok ?sd w (?p, q)" by (simp add: side_inv_def)
    moreover from mem have "set q \<subseteq> side_refs ?d" by (force simp: side_refs_def)
    moreover from this fresh refs have "r \<notin> set q" by auto
    ultimately show ?thesis unfolding q by (simp add: level_ok_def)
  qed
  have sets: "set (side_dict ?sd (book ?w')) = insert (?p, q0 @ [r]) (set ?d - {(?p, q0)})"
    unfolding d' set_modify_unique [OF srt1 look1] set1 ..
  have own_inv: "side_inv ?sd ?w'"
    unfolding side_inv_def
  proof (intro conjI ballI)
    show "sorted_wrt (<) (map fst (side_dict ?sd (book ?w')))"
      unfolding d' using srt1 by simp
  next
    fix kv assume "kv \<in> set (side_dict ?sd (book ?w'))"
    with sets consider "kv = (?p, q0 @ [r])" | "kv \<in> set ?d" by auto
    then show "level_ok ?sd ?w' kv"
    proof cases
      case 1
      with q0_ok rn lv show ?thesis by (auto simp: level_ok_def live_def)
    next
      case 2
      with iown have "level_ok ?sd w kv" by (simp add: side_inv_def)
      then show ?thesis by (simp add: level_ok_def)
    qed
  qed
  have "side_inv (opposite ?sd) ?w'"
    by (rule side_inv_frame(1) [OF io]) simp_all
  with own_inv show "book_inv ?w'" using book_inv_sides [of ?w' ?sd] by simp
  have own_refs: "side_refs (side_dict ?sd (book ?w')) = insert r (side_refs ?d)"
  proof -
    have "side_refs (side_dict ?sd (book ?w')) = set (q0 @ [r]) \<union> (\<Union>kv \<in> set ?d - {(?p, q0)}. set (snd kv))"
      unfolding side_refs_def sets by simp
    moreover have "set q0 \<union> (\<Union>kv \<in> set ?d - {(?p, q0)}. set (snd kv)) = side_refs ?d"
    proof (cases "(?p, q0) \<in> set ?d")
      case True
      then have "set ?d = insert (?p, q0) (set ?d - {(?p, q0)})" by auto
      then have "side_refs ?d = set q0 \<union> (\<Union>kv \<in> set ?d - {(?p, q0)}. set (snd kv))"
        unfolding side_refs_def by (metis UN_insert snd_conv)
      then show ?thesis by simp
    next
      case False
      then have "sd_lookup ?p ?d = None"
        by (cases "sd_lookup ?p ?d") (auto simp: q0_def level_of_def dest: sd_lookup_in)
      then have "q0 = []" by (simp add: q0_def level_of_def)
      with False show ?thesis by (simp add: side_refs_def)
    qed
    ultimately show ?thesis by auto
  qed
  show "book_refs (book ?w') = insert r (book_refs (book w))"
    using book_refs_by_side [of "book ?w'" ?sd] own_refs refs by simp
  have "side_total (heap w) (side_dict ?sd (book ?w'))
      = side_total (heap w) d1 - level_size (heap w) q0 + level_size (heap w) (q0 @ [r])"
    unfolding d' using srt1 look1 by (rule side_total_modify)
  then have "side_total (heap w) (side_dict ?sd (book ?w')) = side_total (heap w) ?d + size_d (heap w r)"
    using tot1 by simp
  then show "resting_total ?w' = resting_total w + size_d (heap w r)"
    using resting_total_by_side [of ?w' ?sd] resting_total_by_side [of w ?sd] by simp
qed

lemma book_inv_frame:
  assumes inv: "book_inv w" and n: "next_ref w \<le> next_ref w'"
    and b: "bids (book w') = bids (book w)" and a: "asks (book w') = asks (book w)"
    and h: "\<forall>y \<in> book_refs (book w). heap w' y = heap w y"
  shows "book_inv w'" and "resting_total w' = resting_total w"
    and "book_refs (book w') = book_refs (book w)"
proof -
  have lv: "level_ok sd w' kv" if "level_ok sd w kv" and "set (snd kv) \<subseteq> book_refs (book w)"
    for sd kv
    using that h n unfolding level_ok_def by (auto simp: subset_iff)
  have sub: "set (snd kv) \<subseteq> book_refs (book w)"
    if "kv \<in> set (bids (book w)) \<union> set (asks (book w))" for kv
    using that unfolding book_refs_def by blast
  show "book_inv w'"
    using inv lv sub unfolding book_inv_def side_inv_def by (simp add: a b)
  show "book_refs (book w') = book_refs (book w)"
    by (simp add: book_refs_def a b)
  have eq: "size_d (heap w' x) = size_d (heap w x)"
    if "kv \<in> set (bids (book w)) \<union> set (asks (book w))" and "x \<in> set (snd kv)" for kv x
  proof -
    from sub [OF that(1)] that(2) have "x \<in> book_refs (book w)" by blast
    with h show ?thesis by simp
  qed
  have "side_total (heap w') (bids (book w)) = side_total (heap w) (bids (book w))"
    by (rule side_total_cong) (blast intro: eq)
  moreover have "side_total (heap w') (asks (book w)) = side_total (heap w) (asks (book w))"
    by (rule side_total_cong) (blast intro: eq)
  ultimately show "resting_total w' = resting_total w"
    by (simp add: resting_total_def a b)
qed

lemma book_refs_bound: "book_inv w \<Longrightarrow> x \<in> book_refs (book w) \<Longrightarrow> x < next_ref w"
  unfolding book_inv_def side_inv_def level_ok_def book_refs_def by auto

lemma resting_iff:
  "resting r w \<longleftrightarrow>
     (\<exists>q. sd_lookup (convert_price (heap w r)) (side_dict (side (heap w r)) (book w)) = Some q
          \<and> r \<in> set q)"
  by (cases "sd_lookup (convert_price (heap w r)) (side_dict (side (heap w r)) (book w))")
     (simp_all add: resting_def level_of_def)

lemma book_inv_resting:
  assumes "book_inv w"
  shows "resting r w \<longleftrightarrow> r \<in> book_refs (book w)"
proof
  assume "resting r w"
  then obtain q where "sd_lookup (convert_price (heap w r)) (side_dict (side (heap w r)) (book w)) = Some q"
    and "r \<in> set q"
    unfolding resting_iff by blast
  then have "r \<in> side_refs (side_dict (side (heap w r)) (book w))"
    by (force simp: side_refs_def dest: sd_lookup_in)
  then show "r \<in> book_refs (book w)"
    using book_refs_by_side [of "book w" "side (heap w r)"] by simp
next
  assume r: "r \<in> book_refs (book w)"
  from assms have i: "side_inv BUY w" "side_inv SELL w" by (simp_all add: book_inv_def)
  from r consider "r \<in> side_refs (side_dict BUY (book w))" | "r \<in> side_refs (side_dict SELL (book w))"
    by (auto simp: book_refs_sides)
  then show "resting r w"
  proof cases
    case 1
    from side_inv_lookup [OF i(1) 1] show ?thesis
      unfolding resting_iff by simp
  next
    case 2
    from side_inv_lookup [OF i(2) 2] show ?thesis
      unfolding resting_iff by simp
  qed
qed

lemma remove_order_unknown:
  "\<not> resting r w \<Longrightarrow> remove_order r w = (Inl LOBUnknownOrderError, w)"
  unfolding resting_iff by (simp add: remove_order_def Let_def split: option.splits)

lemma remove_order_success:
  "resting r w \<Longrightarrow> remove_order r w =
     (Inr True, update_status r CANCELLED
        (set_side_dict (side (heap w r))
           (take_out (convert_price (heap w r)) r (side_dict (side (heap w r)) (book w))) w))"
  unfolding resting_iff
  by (auto simp: remove_order_def level_of_def Let_def take_out_def split: option.splits)

lemma remove_order_inv:
  assumes inv: "book_inv w" and res: "resting r w"
  shows "\<exists>w'. remove_order r w = (Inr True, w') \<and> book_inv w' \<and>
           book_refs (book w') = book_refs (book w) - {r} \<and>
           resting_total w' = resting_total w - size_d (heap w r) \<and>
           next_ref w' = next_ref w \<and>
           heap w' = (heap w)(r := (heap w r)\<lparr>status := CANCELLED\<rparr>)"
proof -
  let ?sd = "side (heap w r)"
  let ?p = "convert_price (heap w r)"
  let ?d = "side_dict ?sd (book w)"
  let ?w' = "update_status r CANCELLED (set_side_dict ?sd (take_out ?p r ?d) w)"
  from inv have iown: "side_inv ?sd w" and io: "side_inv (opposite ?sd) w"
    using book_inv_sides [of w ?sd] by simp_all
  from res obtain q where q: "sd_lookup ?p ?d = Some q" and rq: "r \<in> set q"
    unfolding resting_iff by blast
  have r_opp: "r \<notin> side_refs (side_dict (opposite ?sd) (book w))"
  proof
    assume "r \<in> side_refs (side_dict (opposite ?sd) (book w))"
    with io have "side (heap w r) = opposite ?sd" by (rule side_inv_lookup(1))
    then show False by (cases ?sd) simp_all
  qed
  have own: "side_inv ?sd ?w'"
    "side_refs (side_dict ?sd (book ?w')) = side_refs ?d - {r}"
    "side_total (heap ?w') (side_dict ?sd (book ?w')) = side_total (heap w) ?d - size_d (heap w r)"
    by (rule side_inv_take_out [OF iown q rq]; simp)+
  have opp: "side_inv (opposite ?sd) ?w'"
    "side_total (heap ?w') (side_dict (opposite ?sd) (book ?w'))
       = side_total (heap w) (side_dict (opposite ?sd) (book w))"
    by (rule side_inv_frame [OF io]; use r_opp in auto)+
  have "book_inv ?w'" using own(1) opp(1) book_inv_sides [of ?w' ?sd] by simp
  moreover have "book_refs (book ?w') = book_refs (book w) - {r}"
    using book_refs_by_side [of "book ?w'" ?sd] book_refs_by_side [of "book w" ?sd]
      own(2) r_opp by auto
  moreover have "resting_total ?w' = resting_total w - size_d (heap w r)"
    using resting_total_by_side [of ?w' ?sd] resting_total_by_side [of w ?sd] own(3) opp(2)
    by linarith
  moreover have "remove_order r w = (Inr True, ?w')"
    using res by (rule remove_order_success)
  ultimately show ?thesis by simp
qed

lemma new_order_id_book [simp]:
  "bids (snd (new_order_id b)) = bids b"
  "asks (snd (new_order_id b)) = asks b"
  "book_id (snd (new_order_id b)) = book_id b"
  "order_count (snd (new_order_id b)) = order_count b + 1"
  by (simp_all add: new_order_id_def Let_def)

lemma add_order_alt:
  "add_order r w =
     (let w2 = update_status r POSTED
           (assign_id r (fst (new_order_id (book w))) (w\<lparr>book := snd (new_order_id (book w))\<rparr>));
          mr = (if is_crossing r w2 then match r w2 else (Inr (), w2))
      in case fst mr of
           Inl e \<Rightarrow> (Inl e, snd mr)
         | Inr u \<Rightarrow>
             (Inr True,
              (if size_d (heap (snd mr) r) \<noteq> 0 then rest_order r (snd mr) else snd mr)
                \<lparr>book := (book (if size_d (heap (snd mr) r) \<noteq> 0 then rest_order r (snd mr)
                                  else snd mr))\<lparr>last_order := Some r\<rparr>\<rparr>))"
  by (simp add: add_order_def split_def Let_def split: sum.splits)

lemma add_order_inv:
  assumes inv: "book_inv w" and fresh: "r \<notin> book_refs (book w)" and rn: "r < next_ref w"
    and pos: "0 < size_d (heap w r)"
  shows "\<exists>w'. add_order r w = (Inr True, w') \<and> book_inv w' \<and> next_ref w' = next_ref w \<and>
           resting_total w' + (size_d (heap w r) - size_d (heap w' r))
               + (size_d (heap w r) - size_d (heap w' r))
             = resting_total w + size_d (heap w r) \<and>
           sum_sizes (next_ref w) (heap w) - sum_sizes (next_ref w) (heap w')
             = (size_d (heap w r) - size_d (heap w' r))
               + (size_d (heap w r) - size_d (heap w' r))"
proof -
  define w2 where "w2 = update_status r POSTED
      (assign_id r (fst (new_order_id (book w))) (w\<lparr>book := snd (new_order_id (book w))\<rparr>))"
  have n2: "next_ref w2 = next_ref w" by (simp add: w2_def)
  have h2: "heap w2 = (heap w)(r := (heap w r)\<lparr>order_id := Some (fst (new_order_id (book w))),
      status := POSTED\<rparr>)"
    by (simp add: w2_def)
  have hb: "\<forall>y \<in> book_refs (book w). heap w2 y = heap w y"
    using fresh by (auto simp: h2)
  have f2: "book_inv w2" "resting_total w2 = resting_total w"
    "book_refs (book w2) = book_refs (book w)"
    by (rule book_inv_frame [OF inv _ _ _ hb]; simp add: w2_def)+
  have lv2: "live r w2" using pos by (simp add: live_def h2)
  have s2: "size_d (heap w2 r) = size_d (heap w r)" by (simp add: h2)
  have sum2: "sum_sizes (next_ref w) (heap w2) = sum_sizes (next_ref w) (heap w)"
    unfolding h2 using sum_sizes_upd [OF rn, of "heap w"] by simp
  have fresh2: "r \<notin> book_refs (book w2)" using fresh f2(3) by simp
  have rn2: "r < next_ref w2" using rn n2 by simp
  obtain w3 where m: "(if is_crossing r w2 then match r w2 else (Inr (), w2)) = (Inr (), w3)"
    and fr: "match_frame r w2 w3" and fin: "live r w3 \<or> size_d (heap w3 r) = 0"
  proof (cases "is_crossing r w2")
    case True
    from match_loop_inv [OF f2(1) fresh2 rn2 refl lv2, of "price (heap w2 r)"]
    obtain w3 where "match r w2 = (Inr (), w3)" "match_frame r w2 w3"
      "live r w3 \<or> size_d (heap w3 r) = 0"
      unfolding match_def by blast
    with True that show ?thesis by simp
  next
    case False
    with that [of w2] f2(1) fresh2 lv2 show ?thesis by (simp add: match_frame_refl)
  qed
  from fr have f3: "book_inv w3" "r \<notin> book_refs (book w3)" "next_ref w3 = next_ref w2"
    "resting_total w2 - resting_total w3 = size_d (heap w2 r) - size_d (heap w3 r)"
    "sum_sizes (next_ref w2) (heap w2) - sum_sizes (next_ref w2) (heap w3)
       = (size_d (heap w2 r) - size_d (heap w3 r)) + (size_d (heap w2 r) - size_d (heap w3 r))"
    by (simp_all add: match_frame_def)
  define w4 where "w4 = (if size_d (heap w3 r) \<noteq> 0 then rest_order r w3 else w3)"
  have h4: "heap w4 = heap w3" and n4: "next_ref w4 = next_ref w3" by (simp_all add: w4_def)
  have f4: "book_inv w4 \<and> resting_total w4 = resting_total w3 + size_d (heap w3 r)"
  proof (cases "size_d (heap w3 r) = 0")
    case True
    with f3(1) show ?thesis by (simp add: w4_def)
  next
    case False
    with fin have "live r w3" by simp
    from rest_order_inv(1,3) [OF f3(1,2) _ this] rn2 f3(3) False
    show ?thesis by (simp add: w4_def)
  qed
  define w5 where "w5 = w4\<lparr>book := (book w4)\<lparr>last_order := Some r\<rparr>\<rparr>"
  have f5: "book_inv w5" "resting_total w5 = resting_total w4"
    by (rule book_inv_frame [of w4]; simp add: f4 w5_def)+
  have h5: "heap w5 = heap w3" "next_ref w5 = next_ref w" by (simp_all add: w5_def h4 n4 f3(3) n2)
  have "add_order r w = (Inr True, w5)"
    unfolding add_order_alt Let_def w2_def [symmetric] m
    by (simp add: w5_def w4_def)
  moreover have "resting_total w5 + (size_d (heap w r) - size_d (heap w5 r))
               + (size_d (heap w r) - size_d (heap w5 r))
             = resting_total w + size_d (heap w r)"
    using f5(2) f4 f3(4) f2(2) s2 unfolding h5 by linarith
  moreover have "sum_sizes (next_ref w) (heap w) - sum_sizes (next_ref w) (heap w5)
             = (size_d (heap w r) - size_d (heap w5 r))
               + (size_d (heap w r) - size_d (heap w5 r))"
    using f3(5) sum2 s2 unfolding h5 n2 by linarith
  ultimately show ?thesis using f5(1) h5(2) by blast
qed

lemma init_world_inv: "book_inv (init_world nm nb)" "resting_total (init_world nm nb) = 0"
  by (simp_all add: init_world_def LimitOrderBook_init_def book_inv_def side_inv_def
        resting_total_def Let_def)

lemma create_order_invalid:
  "price_setter p = Inl e \<Longrightarrow> create_order p z sd ow w = (Inl e, w)"
  by (simp add: create_order_def Order_init_def)

lemma create_order_inv:
  assumes inv: "book_inv w" and pos: "0 < z" and pr: "price_setter p = Inr x"
  shows "\<exists>w'. create_order p z sd ow w = (Inr (next_ref w), w') \<and> book_inv w' \<and>
           next_ref w' = Suc (next_ref w) \<and>
           resting_total w' + (z - size_d (heap w' (next_ref w)))
               + (z - size_d (heap w' (next_ref w))) = resting_total w + z \<and>
           sum_sizes (next_ref w) (heap w) - sum_sizes (next_ref w) (heap w')
             = z - size_d (heap w' (next_ref w))"
proof -
  let ?r = "next_ref w"
  define ord where "ord = \<lparr>price = x, size_d = z, side = sd, venue = Some (book_id (book w)),
      owner = ow, status = CREATED, order_id = None\<rparr>"
  define w1 where "w1 = w\<lparr>heap := (heap w)(?r := ord), next_ref := ?r + 1\<rparr>"
  have fresh: "?r \<notin> book_refs (book w)" using book_refs_bound [OF inv, of ?r] by auto
  have hb: "\<forall>y \<in> book_refs (book w). heap w1 y = heap w y"
    using fresh by (auto simp: w1_def)
  have f1: "book_inv w1" "resting_total w1 = resting_total w"
    "book_refs (book w1) = book_refs (book w)"
    by (rule book_inv_frame [OF inv _ _ _ hb]; simp add: w1_def)+
  have n1: "next_ref w1 = Suc ?r" and s1: "size_d (heap w1 ?r) = z"
    by (simp_all add: w1_def ord_def)
  from add_order_inv [OF f1(1), of ?r] fresh f1(3) n1 s1 pos
  obtain w' where a: "add_order ?r w1 = (Inr True, w')" and i: "book_inv w'"
    and n: "next_ref w' = Suc ?r"
    and t: "resting_total w' + (z - size_d (heap w' ?r)) + (z - size_d (heap w' ?r))
             = resting_total w1 + z"
    and s: "sum_sizes (Suc ?r) (heap w1) - sum_sizes (Suc ?r) (heap w')
             = (z - size_d (heap w' ?r)) + (z - size_d (heap w' ?r))"
    by auto
  have "sum_sizes ?r (heap w1) = sum_sizes ?r (heap w)"
    unfolding w1_def by (simp add: sum_sizes_upd_beyond)
  with s s1 have "sum_sizes ?r (heap w) - sum_sizes ?r (heap w') = z - size_d (heap w' ?r)"
    unfolding sum_sizes_Suc by linarith
  moreover have "create_order p z sd ow w = (Inr ?r, w')"
    using a pr by (simp add: create_order_def Order_init_def Let_def w1_def ord_def)
  ultimately show ?thesis using i n t f1(2) by auto
qed

lemma cancel_order_alt:
  "cancel_order r w = (if resting r w then (Inr r, snd (remove_order r w))
                       else (Inl LOBUnknownOrderError, w))"
  by (cases "resting r w")
     (simp_all add: cancel_order_def remove_order_success remove_order_unknown)

lemma apply_op_inv:
  assumes inv: "book_inv w" and v: "valid_op x"
  shows "book_inv (apply_op x w)"
    and "balance (apply_op x w) (account x w (apply_op x w) l) = balance w l"
    and "filled_incoming (account x w (apply_op x w) l)
           - filled_resting (account x w (apply_op x w) l)
         = filled_incoming l - filled_resting l"
proof -
  have "book_inv (apply_op x w) \<and>
        balance (apply_op x w) (account x w (apply_op x w) l) = balance w l \<and>
        filled_incoming (account x w (apply_op x w) l)
           - filled_resting (account x w (apply_op x w) l)
         = filled_incoming l - filled_resting l"
  proof (cases x)
    case (Submit p z sd ow)
    show ?thesis
    proof (cases "price_setter p")
      case (Inl e)
      with Submit inv show ?thesis by (simp add: create_order_invalid)
    next
      case (Inr px)
      from v Submit have "0 < z" by simp
      from create_order_inv [OF inv this Inr, of sd ow]
      obtain w' where "create_order p z sd ow w = (Inr (next_ref w), w')" "book_inv w'"
        "resting_total w' + (z - size_d (heap w' (next_ref w)))
               + (z - size_d (heap w' (next_ref w))) = resting_total w + z"
        "sum_sizes (next_ref w) (heap w) - sum_sizes (next_ref w) (heap w')
             = z - size_d (heap w' (next_ref w))"
        by blast
      with Submit Inr show ?thesis by (simp add: balance_def)
    qed
  next
    case (Cancel r)
    show ?thesis
    proof (cases "resting r w")
      case True
      from remove_order_inv [OF inv True]
      obtain w' where "remove_order r w = (Inr True, w')" "book_inv w'"
        "resting_total w' = resting_total w - size_d (heap w r)"
        by blast
      with Cancel True show ?thesis by (simp add: cancel_order_alt balance_def)
    next
      case False
      with Cancel inv show ?thesis by (simp add: cancel_order_alt)
    qed
  qed
  then show "book_inv (apply_op x w)"
    and "balance (apply_op x w) (account x w (apply_op x w) l) = balance w l"
    and "filled_incoming (account x w (apply_op x w) l)
           - filled_resting (account x w (apply_op x w) l)
         = filled_incoming l - filled_resting l"
    by simp_all
qed

lemma run_ledger_fst: "fst (run_ledger ops w l) = run ops w"
  by (induction ops arbitrary: w l) simp_all

lemma run_ledger_inv:
  assumes "book_inv w" and "valid_ops ops" and "run_ledger ops w l = (w', l')"
  shows "book_inv w' \<and> balance w' l' = balance w l \<and>
         filled_incoming l' - filled_resting l' = filled_incoming l - filled_resting l"
  using assms
proof (induction ops arbitrary: w l)
  case Nil
  then show ?case by simp
next
  case (Cons x xs)
  from Cons.prems(2) have v: "valid_op x" and vs: "valid_ops xs"
    by (simp_all add: valid_ops_def)
  note st = apply_op_inv(1) [OF Cons.prems(1) v] apply_op_inv(2,3) [OF Cons.prems(1) v, of l]
  from Cons.prems(3) have "run_ledger xs (apply_op x w) (account x w (apply_op x w) l) = (w', l')"
    by simp
  from Cons.IH [OF st(1) vs this] st(2,3) show ?case by simp
qed

lemma run_book_inv:
  assumes "valid_ops ops"
  shows "book_inv (run ops (init_world nm nb))"
proof -
  obtain w' l' where r: "run_ledger ops (init_world nm nb) no_fills = (w', l')"
    by (cases "run_ledger ops (init_world nm nb) no_fills")
  from run_ledger_inv [OF init_world_inv(1) assms r] have "book_inv w'" by simp
  moreover from r have "w' = run ops (init_world nm nb)"
    using run_ledger_fst [of ops "init_world nm nb" no_fills] by simp
  ultimately show ?thesis by simp
qed

section \<open>What matching never changes\<close>

lemma updates_about_append [simp]:
  "updates_about x (us @ vs) = updates_about x us @ updates_about x vs"
  by (simp add: updates_about_def)

lemma updates_about_update_status:
  "\<not> owner_truthy (owner (heap w x)) \<Longrightarrow>
   updates_about x (delivered (update_status r st w)) = updates_about x (delivered w)"
  by (auto simp: delivered_update_status updates_about_def owner_truthy_def split: option.splits)

lemma static_update_status [simp]:
  "owner (heap (update_status r st w) y) = owner (heap w y)"
  "side (heap (update_status r st w) y) = side (heap w y)"
  "price (heap (update_status r st w) y) = price (heap w y)"
  "size_d (heap (update_status r st w) y) = size_d (heap w y)"
  by simp_all

lemma static_set_size [simp]:
  "owner (heap (set_size r v w) y) = owner (heap w y)"
  "side (heap (set_size r v w) y) = side (heap w y)"
  "price (heap (set_size r v w) y) = price (heap w y)"
  "status (heap (set_size r v w) y) = status (heap w y)"
  by simp_all

lemma static_assign_id [simp]:
  "owner (heap (assign_id r i w) y) = owner (heap w y)"
  "side (heap (assign_id r i w) y) = side (heap w y)"
  "price (heap (assign_id r i w) y) = price (heap w y)"
  "size_d (heap (assign_id r i w) y) = size_d (heap w y)"
  "status (heap (assign_id r i w) y) = status (heap w y)"
  by simp_all

lemma own_side_set_opposite [simp]:
  "side_dict sd (book (set_side_dict (opposite sd) d w)) = side_dict sd (book w)"
  by (cases sd) simp_all

lemma static_refl [simp]: "static w w"
  by (simp add: static_def)

lemma static_trans: "static w w' \<Longrightarrow> static w' w'' \<Longrightarrow> static w w''"
  by (simp add: static_def)

lemma static_prims:
  "static w (set_size r v w)"
  "static w (update_status r st w)"
  "static w (assign_id r i w)"
  "static w (set_side_dict sd d w)"
  by (simp_all add: static_def updates_about_update_status)

lemma match_step_static:
  "static w (world_of (match_step sd p r w))"
  unfolding match_step_def Let_def
  by (auto split: prod.splits list.splits intro!: static_trans [OF _ static_prims(2)]
        static_trans [OF _ static_prims(1)] static_trans [OF _ static_prims(4)])

lemma match_step_own_side:
  "side_dict sd (book (world_of (match_step sd p r w))) = side_dict sd (book w)"
  unfolding match_step_def Let_def
  by (auto split: prod.splits list.splits)

lemma match_loop_static:
  "static w (snd (match_loop sd p r w)) \<and>
   side_dict sd (book (snd (match_loop sd p r w))) = side_dict sd (book w)"
proof (induction sd p r w rule: match_loop.induct)
  case (1 sd p r w)
  note st = match_step_static [of w sd p r] and own = match_step_own_side [of sd p r w]
  show ?case
  proof (cases "match_step sd p r w")
    case (Continue w1)
    with "1.IH" have "static w1 (snd (match_loop sd p r w1))"
      and "side_dict sd (book (snd (match_loop sd p r w1))) = side_dict sd (book w1)"
      by simp_all
    moreover from Continue st own have "static w w1" "side_dict sd (book w1) = side_dict sd (book w)"
      by simp_all
    moreover from Continue have "match_loop sd p r w = match_loop sd p r w1"
      by (simp add: match_loop.simps [of sd p r w])
    ultimately show ?thesis by (auto intro: static_trans)
  next
    case (Return w1)
    with st own show ?thesis by (simp add: match_loop.simps [of sd p r w])
  next
    case (Raise e w1)
    with st own show ?thesis by (simp add: match_loop.simps [of sd p r w])
  qed
qed

lemma level_of_modify:
  "level_of (sd_modify p f d) k = (if k = p \<and> sd_lookup p d \<noteq> None then f (level_of d p) else level_of d k)"
  by (auto simp: level_of_def sd_lookup_modify split: option.splits)

lemma level_of_delitem:
  "level_of (sd_delitem p d) k = (if k = p then [] else level_of d k)"
  by (simp add: level_of_def sd_lookup_delitem)

lemma suffix_pop: "suffix (level_of (sd_modify p tl d) k) (level_of d k)"
  by (simp add: level_of_modify suffix_tl)

lemma suffix_pop_delete: "suffix (level_of (sd_delitem p (sd_modify p tl d)) k) (level_of d k)"
  by (simp add: level_of_delitem suffix_pop)

lemma match_step_suffix:
  "suffix (level_of (side_dict (opposite sd) (book (world_of (match_step sd p r w)))) k)
          (level_of (side_dict (opposite sd) (book w)) k)"
  unfolding match_step_def Let_def
  by (auto split: prod.splits list.splits simp: suffix_pop suffix_pop_delete)

lemma match_loop_suffix:
  "suffix (level_of (side_dict (opposite sd) (book (snd (match_loop sd p r w)))) k)
          (level_of (side_dict (opposite sd) (book w)) k)"
proof (induction sd p r w rule: match_loop.induct)
  case (1 sd p r w)
  note st = match_step_suffix [of sd p r w k]
  show ?case
  proof (cases "match_step sd p r w")
    case (Continue w1)
    with "1.IH" have "suffix (level_of (side_dict (opposite sd) (book (snd (match_loop sd p r w1)))) k)
        (level_of (side_dict (opposite sd) (book w1)) k)"
      by simp
    moreover from Continue st
    have "suffix (level_of (side_dict (opposite sd) (book w1)) k)
        (level_of (side_dict (opposite sd) (book w)) k)"
      by simp
    moreover from Continue have "match_loop sd p r w = match_loop sd p r w1"
      by (simp add: match_loop.simps [of sd p r w])
    ultimately show ?thesis by (auto intro: suffix_order.trans)
  next
    case (Return w1)
    with st show ?thesis by (simp add: match_loop.simps [of sd p r w])
  next
    case (Raise e w1)
    with st show ?thesis by (simp add: match_loop.simps [of sd p r w])
  qed
qed

text \<open>The only resting order a round writes to is the head of the level it looks at.\<close>

lemma match_step_touch:
  assumes "heap (world_of (match_step sd p r w)) y \<noteq> heap w y" and "y \<noteq> r"
  shows "side_dict (opposite sd) (book w) \<noteq> [] \<and>
         (\<exists>k rest. peekitem (side_dict (opposite sd) (book w)) = (k, y # rest))"
  using assms unfolding match_step_def Let_def
  by (auto split: prod.splits list.splits if_splits)

section \<open>What a submission and a cancellation never change\<close>

lemma static_same:
  "heap w' = heap w \<Longrightarrow> next_ref w' = next_ref w \<Longrightarrow> delivered w' = delivered w \<Longrightarrow>
   static w w'"
  by (simp add: static_def)

lemma static_convert_price:
  "static w w' \<Longrightarrow> convert_price (heap w' y) = convert_price (heap w y)"
  by (simp add: static_def convert_price_def)

lemma match_static:
  "static w (snd (match r w))"
  "side_dict (side (heap w r)) (book (snd (match r w))) = side_dict (side (heap w r)) (book w)"
  using match_loop_static [of w "side (heap w r)" "price (heap w r)" r]
  by (simp_all add: match_def)

lemma add_order_stages:
  "add_order r w =
     (case fst (matched r w) of
        Inl e \<Rightarrow> (Inl e, snd (matched r w))
      | Inr u \<Rightarrow>
          (Inr True,
           (if size_d (heap (snd (matched r w)) r) \<noteq> 0 then rest_order r (snd (matched r w))
            else snd (matched r w))
             \<lparr>book := (book (if size_d (heap (snd (matched r w)) r) \<noteq> 0
                              then rest_order r (snd (matched r w)) else snd (matched r w)))
                \<lparr>last_order := Some r\<rparr>\<rparr>))"
  unfolding add_order_alt Let_def matched_def posted_def ..

lemma posted_static: "static w (posted r w)"
  unfolding posted_def
  by (rule static_trans [OF _ static_prims(2)], rule static_trans [OF _ static_prims(3)])
     (simp add: static_same)

lemma posted_sides [simp]: "side_dict sd (book (posted r w)) = side_dict sd (book w)"
  by (simp add: posted_def side_dict_def)

lemma matched_static: "static w (snd (matched r w))"
proof -
  have "static (posted r w) (snd (matched r w))"
    unfolding matched_def using match_static(1) [of "posted r w" r] by simp
  with posted_static show ?thesis by (rule static_trans)
qed

lemma matched_own_side:
  "side_dict (side (heap w r)) (book (snd (matched r w))) = side_dict (side (heap w r)) (book w)"
proof -
  have "side (heap (posted r w) r) = side (heap w r)"
    using posted_static [of w r] by (simp add: static_def)
  then show ?thesis
    unfolding matched_def using match_static(2) [of "posted r w" r] by simp
qed

lemma add_order_static: "static w (snd (add_order r w))"
proof -
  let ?w3 = "snd (matched r w)"
  have "static ?w3 (snd (add_order r w))"
    unfolding add_order_stages by (auto split: sum.splits intro!: static_same)
  with matched_static show ?thesis by (rule static_trans)
qed

lemma remove_order_static: "static w (snd (remove_order r w))"
  unfolding remove_order_def Let_def
  by (auto split: option.splits intro!: static_trans [OF _ static_prims(2)] static_prims(4))

lemma add_order_rest_level:
  assumes "add_order r w = (Inr True, w')" and "size_d (heap w' r) \<noteq> 0"
  shows "level_of (side_dict (side (heap w r)) (book w')) (convert_price (heap w r))
       = level_of (side_dict (side (heap w r)) (book w)) (convert_price (heap w r)) @ [r]"
proof -
  let ?w3 = "snd (matched r w)"
  from matched_static [of w r] have sd: "side (heap ?w3 r) = side (heap w r)"
    and cp: "convert_price (heap ?w3 r) = convert_price (heap w r)"
    by (simp_all add: static_def convert_price_def)
  from assms(1) have w': "w' = (if size_d (heap ?w3 r) \<noteq> 0 then rest_order r ?w3 else ?w3)
             \<lparr>book := (book (if size_d (heap ?w3 r) \<noteq> 0 then rest_order r ?w3 else ?w3))
                \<lparr>last_order := Some r\<rparr>\<rparr>"
    unfolding add_order_stages by (auto split: sum.splits)
  with assms(2) have nz: "size_d (heap ?w3 r) \<noteq> 0" by (auto split: if_splits)
  with w' have "side_dict (side (heap w r)) (book w')
      = side_dict (side (heap ?w3 r)) (book (rest_order r ?w3))"
    by (simp add: sd)
  with rest_order_level [of ?w3 r] matched_own_side [of w r] show ?thesis by (simp add: sd cp)
qed

section \<open>Order construction\<close>

text \<open>
  Claim C8. Building an order, or assigning its price, raises exactly when the price is
  missing or not positive; the failed construction leaves the world as it was (no order
  is allocated, the book is untouched). With a positive price the order is built with
  status CREATED and no identifier.
\<close>

theorem order_price_must_be_positive:
  fixes p :: "rat option" and x :: rat
  shows "((\<exists>e. Order_init p sz sd v ow = Inl e) \<longleftrightarrow> (p = None \<or> (\<exists>y. p = Some y \<and> y \<le> 0)))
       \<and> ((\<exists>e. set_price p ord = Inl e) \<longleftrightarrow> (p = None \<or> (\<exists>y. p = Some y \<and> y \<le> 0)))
       \<and> ((p = None \<or> (\<exists>y. p = Some y \<and> y \<le> 0)) \<longrightarrow>
            Order_init p sz sd v ow = Inl ValueError \<and> set_price p ord = Inl ValueError \<and>
            create_order p sz sd ow w = (Inl ValueError, w))
       \<and> (0 < x \<longrightarrow> Order_init (Some x) sz sd v ow =
             Inr \<lparr>price = x, size_d = sz, side = sd, venue = v, owner = ow,
                  status = CREATED, order_id = None\<rparr>
             \<and> set_price (Some x) ord = Inr (ord\<lparr>price := x\<rparr>))"
  by (auto simp: Order_init_def set_price_def price_setter_def create_order_def
        split: option.splits)

theorem order_price_must_be_positive_witness:
  "Order_init (Some 0) 1 BUY None None = Inl ValueError \<and>
   set_price (Some 0) blank = Inl ValueError \<and>
   create_order (Some 0) 1 BUY None (init_world ''binance'' 0)
     = (Inl ValueError, init_world ''binance'' 0) \<and>
   Order_init (Some 102) 1 BUY None None =
     Inr \<lparr>price = 102, size_d = 1, side = BUY, venue = None, owner = None,
          status = CREATED, order_id = None\<rparr>"
  using order_price_must_be_positive
    [of "Some 0" 1 BUY None None blank "init_world ''binance'' 0" 102]
  by simp

section \<open>A partial fill\<close>

text \<open>
  Claim C6. In a book whose only resting order is a SELL of size 0.7 at price 102, a new
  BUY of size 0.5 at 102 leaves the resting order PARTIALLY_FILLED with size 0.2 in its
  level, which stays, and the incoming order FILLED with size 0 and resting nowhere.
\<close>

theorem partial_fill_postcondition:
  assumes "bids (book w) = []" and "asks (book w) = [(102, [m])]"
    and "m < next_ref w"
    and "side (heap w m) = SELL" and "price (heap w m) = 102" and "size_d (heap w m) = 7 / 10"
  shows "\<exists>w'. create_order (Some 102) (1 / 2) BUY ow w = (Inr (next_ref w), w') \<and>
           status (heap w' m) = PARTIALLY_FILLED \<and> size_d (heap w' m) = 1 / 5 \<and>
           asks (book w') = [(102, [m])] \<and> bids (book w') = [] \<and>
           status (heap w' (next_ref w)) = FILLED \<and> size_d (heap w' (next_ref w)) = 0 \<and>
           next_ref w \<notin> book_refs (book w')"
proof -
  let ?r = "next_ref w"
  define w1 where "w1 = w\<lparr>heap := (heap w)(?r := \<lparr>price = 102, size_d = 1 / 2, side = BUY,
       venue = Some (book_id (book w)), owner = ow, status = CREATED, order_id = None\<rparr>),
       next_ref := ?r + 1\<rparr>"
  define w2 where "w2 = update_status ?r POSTED
       (assign_id ?r (fst (new_order_id (book w1))) (w1\<lparr>book := snd (new_order_id (book w1))\<rparr>))"
  from assms have m: "m \<noteq> ?r" by simp
  have b2: "bids (book w2) = []" "asks (book w2) = [(102, [m])]"
    using assms by (simp_all add: w2_def w1_def new_order_id_def Let_def)
  have h2: "size_d (heap w2 m) = 7 / 10" "size_d (heap w2 ?r) = 1 / 2"
    "side (heap w2 ?r) = BUY" "price (heap w2 ?r) = 102"
    using assms m by (simp_all add: w2_def w1_def)
  have cross: "is_crossing ?r w2"
    using b2 h2 by (simp add: is_crossing_def peekitem_def)
  define w3 where "w3 = update_status ?r FILLED (update_status m PARTIALLY_FILLED
       (set_size ?r 0 (set_size m (size_d (heap w2 m) - size_d (heap w2 ?r)) w2)))"
  have step: "match_step BUY 102 ?r w2 = Return w3"
    using b2 h2 by (simp add: match_step_def peekitem_def condition_def Let_def w3_def)
  have mt: "match ?r w2 = (Inr (), w3)"
    using step h2 by (simp add: match_def match_loop.simps)
  have add: "add_order ?r w1 = (Inr True, w3\<lparr>book := (book w3)\<lparr>last_order := Some ?r\<rparr>\<rparr>)"
    using cross mt m by (simp add: add_order_def split_def Let_def w2_def [symmetric] w3_def)
  have co: "create_order (Some 102) (1 / 2) BUY ow w
      = (Inr ?r, w3\<lparr>book := (book w3)\<lparr>last_order := Some ?r\<rparr>\<rparr>)"
    using add by (simp add: create_order_def Order_init_def price_setter_def Let_def w1_def)
  show ?thesis
    unfolding co using b2 h2 m by (simp add: w3_def book_refs_def w2_def w1_def)
qed


theorem partial_fill_postcondition_witness:
  "bids (book (run [Submit (Some 102) (7 / 10) SELL None] (init_world ''binance'' 0))) = [] \<and>
   asks (book (run [Submit (Some 102) (7 / 10) SELL None] (init_world ''binance'' 0))) = [(102, [0])] \<and>
   (\<exists>w'. create_order (Some 102) (1 / 2) BUY None
            (run [Submit (Some 102) (7 / 10) SELL None] (init_world ''binance'' 0)) = (Inr 1, w') \<and>
         status (heap w' 0) = PARTIALLY_FILLED \<and> size_d (heap w' 0) = 1 / 5 \<and>
         asks (book w') = [(102, [0])] \<and> bids (book w') = [] \<and>
         status (heap w' 1) = FILLED \<and> size_d (heap w' 1) = 0 \<and>
         1 \<notin> book_refs (book w'))"
proof -
  let ?w = "run [Submit (Some 102) (7 / 10) SELL None] (init_world ''binance'' 0)"
  have b: "bids (book ?w) = []" by code_simp
  have a: "asks (book ?w) = [(102, [0])]" by code_simp
  have n: "next_ref ?w = 1" by code_simp
  have m: "0 < next_ref ?w" by code_simp
  have s: "side (heap ?w 0) = SELL" by code_simp
  have p: "price (heap ?w 0) = 102" by code_simp
  have z: "size_d (heap ?w 0) = 7 / 10" by code_simp
  from partial_fill_postcondition [OF b a m s p z, of None] b a show ?thesis
    unfolding n by simp
qed


section \<open>Which level is looked at: the last item of the opposite side\<close>

text \<open>
  Claim C1. With asks resting at 100 and at 105, a BUY at 102 is at or above the lowest
  ask, yet \<open>_is_crossing\<close> compares it with the last item of \<open>asks\<close>, the ask at 105:
  no match is made and the BUY rests at 102, above the ask at 100.
\<close>

theorem crossing_test_ignores_best_ask:
  "let w = run [Submit (Some 100) 1 SELL None, Submit (Some 105) 1 SELL None,
                Submit (Some 102) 1 BUY None] (init_world ''binance'' 0)
   in asks (book w) = [(100, [0]), (105, [1])] \<and> bids (book w) = [(- 102, [2])] \<and>
      status (heap w 2) = POSTED \<and> size_d (heap w 2) = 1 \<and>
      status (heap w 0) = POSTED \<and> size_d (heap w 0) = 1"
  by code_simp

text \<open>
  Claim C2. With asks resting at 100 and at 105, a BUY of size 1 at 106 is matched with
  the ask at 105, the last item of \<open>asks\<close>, and the ask at 100 stays untouched.
\<close>

theorem matching_starts_at_worst_ask:
  "let w = run [Submit (Some 100) 1 SELL None, Submit (Some 105) 1 SELL None,
                Submit (Some 106) 1 BUY None] (init_world ''binance'' 0)
   in asks (book w) = [(100, [0])] \<and> bids (book w) = [] \<and>
      status (heap w 0) = POSTED \<and> size_d (heap w 0) = 1 \<and>
      status (heap w 1) = FILLED \<and> size_d (heap w 1) = 0 \<and>
      status (heap w 2) = FILLED \<and> size_d (heap w 2) = 0"
  by code_simp

section \<open>Identifiers\<close>

text \<open>
  Claim C9. The eleventh order of the first book and the first order of the eleventh
  book both get the identifier 111: the numerals of book 1 and count 11, and those of
  book 11 and count 1, are the same string.
\<close>

theorem identifier_collision_across_books:
  "let w1 = run (replicate 11 (Submit (Some 100) 1 BUY None)) (init_world ''first'' 0);
       w11 = run [Submit (Some 100) 1 BUY None] (init_world ''eleventh'' 10)
   in book_id (book w1) = 1 \<and> book_id (book w11) = 11 \<and>
      order_id (heap w1 10) = Some 111 \<and> order_id (heap w11 0) = Some 111"
  by code_simp

section \<open>Well-formedness of the book along a run\<close>

lemma book_inv_well_formed: "book_inv w \<Longrightarrow> well_formed w"
  unfolding book_inv_def side_inv_def level_ok_def well_formed_def side_well_formed_def
  by auto

text \<open>
  Claim C7. After any sequence of submissions and cancellations with valid inputs, from
  the empty book, no price level of the book is empty, every resting order has a
  positive size, and every resting order is on the side it belongs to. (A level whose
  last order is matched or cancelled is therefore gone, not left empty.)
\<close>

theorem book_stays_well_formed:
  assumes "valid_ops ops"
  shows "well_formed (run ops (init_world nm nb))"
  using assms by (intro book_inv_well_formed run_book_inv)

theorem book_stays_well_formed_witness:
  "valid_ops [Submit (Some 100) 1 SELL None, Submit (Some 101) 2 SELL None,
              Submit (Some 101) 2 BUY None, Cancel 0, Submit (Some 99) 1 BUY None] \<and>
   well_formed (run [Submit (Some 100) 1 SELL None, Submit (Some 101) 2 SELL None,
              Submit (Some 101) 2 BUY None, Cancel 0, Submit (Some 99) 1 BUY None]
             (init_world ''binance'' 0)) \<and>
   asks (book (run [Submit (Some 100) 1 SELL None, Submit (Some 101) 2 SELL None,
              Submit (Some 101) 2 BUY None, Cancel 0, Submit (Some 99) 1 BUY None]
             (init_world ''binance'' 0))) = [] \<and>
   bids (book (run [Submit (Some 100) 1 SELL None, Submit (Some 101) 2 SELL None,
              Submit (Some 101) 2 BUY None, Cancel 0, Submit (Some 99) 1 BUY None]
             (init_world ''binance'' 0))) = [(- 99, [3])]"
proof -
  let ?ops = "[Submit (Some 100) 1 SELL None, Submit (Some 101) 2 SELL None,
              Submit (Some 101) 2 BUY None, Cancel 0, Submit (Some 99) 1 BUY None]"
  have v: "valid_ops ?ops" by (simp add: valid_ops_def)
  have a: "asks (book (run ?ops (init_world ''binance'' 0))) = []" by code_simp
  have b: "bids (book (run ?ops (init_world ''binance'' 0))) = [(- 99, [3])]" by code_simp
  from book_stays_well_formed [OF v, of "''binance''" 0] v a b show ?thesis by blast
qed

section \<open>Conservation of size\<close>



section \<open>Notifications and owners\<close>

lemma create_order_quiet:
  assumes "\<not> owner_truthy ow"
  shows "updates_about (next_ref w) (delivered (snd (create_order p z sd ow w)))
       = updates_about (next_ref w) (delivered w)"
proof (cases "price_setter p")
  case (Inl e)
  then show ?thesis by (simp add: create_order_invalid)
next
  case (Inr x)
  let ?r = "next_ref w"
  define w1 where "w1 = w\<lparr>heap := (heap w)
      (?r := \<lparr>price = x, size_d = z, side = sd, venue = Some (book_id (book w)), owner = ow,
              status = CREATED, order_id = None\<rparr>), next_ref := ?r + 1\<rparr>"
  have "snd (create_order p z sd ow w) = snd (add_order ?r w1)"
    using Inr by (simp add: create_order_def Order_init_def Let_def w1_def split_def
        split: sum.splits)
  moreover have "\<not> owner_truthy (owner (heap w1 ?r))" using assms by (simp add: w1_def)
  then have "updates_about ?r (delivered (snd (add_order ?r w1))) = updates_about ?r (delivered w1)"
    using add_order_static [of w1 ?r] by (simp add: static_def)
  moreover have "delivered w1 = delivered w" by (simp add: w1_def)
  ultimately show ?thesis by simp
qed

text \<open>
  Claim C10. \<open>update_status\<close> always sets the status; it delivers one update, to the
  owner, when the owner is truthy, and none when the owner is \<open>None\<close> or falsy. So
  through a submission (of this or of another order) and through a cancellation, no
  notification about an order without a truthy owner is ever delivered, though its
  status changes all the same.
\<close>

theorem no_notification_without_owner:
  "(\<not> owner_truthy (owner (heap w r)) \<longrightarrow>
      status (heap (update_status r st w) r) = st \<and>
      delivered (update_status r st w) = delivered w) \<and>
   (owner (heap w r') = Some ow \<and> truthy ow \<longrightarrow>
      status (heap (update_status r' st w) r') = st \<and>
      delivered (update_status r' st w)
        = delivered w @ [(ow, OrderUpdate r' st (status (heap w r')))]) \<and>
   (\<not> owner_truthy (owner (heap w x)) \<longrightarrow>
      updates_about x (delivered (snd (add_order a w))) = updates_about x (delivered w) \<and>
      updates_about x (delivered (snd (remove_order c w))) = updates_about x (delivered w)) \<and>
   (\<not> owner_truthy ow' \<longrightarrow>
      updates_about (next_ref w) (delivered (snd (create_order p z sd ow' w)))
        = updates_about (next_ref w) (delivered w))"
proof (intro conjI impI)
  assume "\<not> owner_truthy (owner (heap w r))"
  then show "delivered (update_status r st w) = delivered w"
    by (auto simp: delivered_update_status owner_truthy_def split: option.splits)
next
  assume "owner (heap w r') = Some ow \<and> truthy ow"
  then show "delivered (update_status r' st w)
        = delivered w @ [(ow, OrderUpdate r' st (status (heap w r')))]"
    by (simp add: delivered_update_status)
next
  assume "\<not> owner_truthy (owner (heap w x))"
  then show "updates_about x (delivered (snd (add_order a w))) = updates_about x (delivered w)"
    using add_order_static [of w a] by (simp add: static_def)
next
  assume "\<not> owner_truthy (owner (heap w x))"
  then show "updates_about x (delivered (snd (remove_order c w))) = updates_about x (delivered w)"
    using remove_order_static [of w c] by (simp add: static_def)
next
  assume "\<not> owner_truthy ow'"
  then show "updates_about (next_ref w) (delivered (snd (create_order p z sd ow' w)))
        = updates_about (next_ref w) (delivered w)"
    by (rule create_order_quiet)
qed simp_all

theorem no_notification_without_owner_witness:
  "owner (heap (run [Submit (Some 100) 1 SELL None,
                     Submit (Some 99) 1 BUY (Some (Owner ''mm'' True))]
                  (init_world ''binance'' 0)) 0) = None \<and>
   owner (heap (run [Submit (Some 100) 1 SELL None,
                     Submit (Some 99) 1 BUY (Some (Owner ''mm'' True))]
                  (init_world ''binance'' 0)) 1) = Some (Owner ''mm'' True) \<and>
   delivered (update_status 0 FILLED
      (run [Submit (Some 100) 1 SELL None, Submit (Some 99) 1 BUY (Some (Owner ''mm'' True))]
         (init_world ''binance'' 0)))
     = delivered (run [Submit (Some 100) 1 SELL None,
                       Submit (Some 99) 1 BUY (Some (Owner ''mm'' True))]
                    (init_world ''binance'' 0)) \<and>
   delivered (update_status 1 FILLED
      (run [Submit (Some 100) 1 SELL None, Submit (Some 99) 1 BUY (Some (Owner ''mm'' True))]
         (init_world ''binance'' 0)))
     = delivered (run [Submit (Some 100) 1 SELL None,
                       Submit (Some 99) 1 BUY (Some (Owner ''mm'' True))]
                    (init_world ''binance'' 0))
       @ [(Owner ''mm'' True, OrderUpdate 1 FILLED POSTED)] \<and>
   status (heap (snd (remove_order 0
      (run [Submit (Some 100) 1 SELL None, Submit (Some 99) 1 BUY (Some (Owner ''mm'' True))]
         (init_world ''binance'' 0)))) 0) = CANCELLED \<and>
   updates_about 0 (delivered (snd (remove_order 0
      (run [Submit (Some 100) 1 SELL None, Submit (Some 99) 1 BUY (Some (Owner ''mm'' True))]
         (init_world ''binance'' 0)))))
     = updates_about 0 (delivered
      (run [Submit (Some 100) 1 SELL None, Submit (Some 99) 1 BUY (Some (Owner ''mm'' True))]
         (init_world ''binance'' 0))) \<and>
   updates_about 2 (delivered (snd (create_order (Some 100) 1 BUY None
      (run [Submit (Some 100) 1 SELL None, Submit (Some 99) 1 BUY (Some (Owner ''mm'' True))]
         (init_world ''binance'' 0))))) = []"
proof -
  let ?w = "run [Submit (Some 100) 1 SELL None, Submit (Some 99) 1 BUY (Some (Owner ''mm'' True))]
         (init_world ''binance'' 0)"
  have o0: "owner (heap ?w 0) = None" by code_simp
  have o1: "owner (heap ?w 1) = Some (Owner ''mm'' True)" by code_simp
  have s1: "status (heap ?w 1) = POSTED" by code_simp
  have n: "next_ref ?w = 2" by code_simp
  have u2: "updates_about 2 (delivered ?w) = []" by code_simp
  have c: "status (heap (snd (remove_order 0 ?w)) 0) = CANCELLED" by code_simp
  have f0: "\<not> owner_truthy (owner (heap ?w 0))" unfolding o0 by (simp add: owner_truthy_def)
  have f1: "owner (heap ?w 1) = Some (Owner ''mm'' True) \<and> truthy (Owner ''mm'' True)"
    using o1 by simp
  have f2: "\<not> owner_truthy None" by (simp add: owner_truthy_def)
  from no_notification_without_owner
    [of ?w 0 FILLED 1 "Owner ''mm'' True" 0 0 0 None "Some 100" 1 BUY]
    f0 f1 f2
  have "delivered (update_status 0 FILLED ?w) = delivered ?w"
    and "delivered (update_status 1 FILLED ?w)
        = delivered ?w @ [(Owner ''mm'' True, OrderUpdate 1 FILLED (status (heap ?w 1)))]"
    and "updates_about 0 (delivered (snd (remove_order 0 ?w))) = updates_about 0 (delivered ?w)"
    and "updates_about (next_ref ?w) (delivered (snd (create_order (Some 100) 1 BUY None ?w)))
        = updates_about (next_ref ?w) (delivered ?w)"
    by blast+
  then show ?thesis unfolding s1 n u2 using o0 o1 c by blast
qed

section \<open>Cancellation\<close>

lemma sd_lookup_take_out:
  "sd_lookup k (take_out p x d) =
     (if k = p
      then (if remove1 x (level_of d p) = [] then None
            else map_option (remove1 x) (sd_lookup p d))
      else sd_lookup k d)"
  by (simp add: take_out_def sd_lookup_modify sd_lookup_delitem)

lemma book_refs_status:
  "book_inv w \<Longrightarrow> x \<in> book_refs (book w) \<Longrightarrow>
   status (heap w x) = POSTED \<or> status (heap w x) = PARTIALLY_FILLED"
  unfolding book_inv_def side_inv_def level_ok_def book_refs_def by auto

lemma remove_order_effects:
  assumes "resting r w"
  shows "\<exists>w'. remove_order r w = (Inr True, w') \<and>
     (\<forall>k. sd_lookup k (side_dict (side (heap w r)) (book w')) =
         (if k = convert_price (heap w r)
          then (if remove1 r (level_of (side_dict (side (heap w r)) (book w)) k) = [] then None
                else Some (remove1 r (level_of (side_dict (side (heap w r)) (book w)) k)))
          else sd_lookup k (side_dict (side (heap w r)) (book w)))) \<and>
     side_dict (opposite (side (heap w r))) (book w')
       = side_dict (opposite (side (heap w r))) (book w) \<and>
     heap w' = (heap w)(r := (heap w r)\<lparr>status := CANCELLED\<rparr>) \<and>
     next_ref w' = next_ref w \<and>
     delivered w' = delivered w @
       (case owner (heap w r) of
          None \<Rightarrow> []
        | Some ow \<Rightarrow> if truthy ow then [(ow, OrderUpdate r CANCELLED (status (heap w r)))] else [])"
proof -
  let ?sd = "side (heap w r)"
  let ?p = "convert_price (heap w r)"
  let ?d = "side_dict ?sd (book w)"
  let ?w' = "update_status r CANCELLED (set_side_dict ?sd (take_out ?p r ?d) w)"
  from assms obtain q where q: "sd_lookup ?p ?d = Some q" and rq: "r \<in> set q"
    unfolding resting_iff by blast
  then have l: "level_of ?d ?p = q" by (simp add: level_of_def)
  have "remove_order r w = (Inr True, ?w')" using assms by (rule remove_order_success)
  moreover have "sd_lookup k (side_dict ?sd (book ?w')) =
         (if k = ?p
          then (if remove1 r (level_of ?d k) = [] then None
                else Some (remove1 r (level_of ?d k)))
          else sd_lookup k ?d)" for k
    using q l by (simp add: sd_lookup_take_out)
  moreover have "side_dict (opposite ?sd) (book ?w') = side_dict (opposite ?sd) (book w)"
    by simp
  moreover have "heap ?w' = (heap w)(r := (heap w r)\<lparr>status := CANCELLED\<rparr>)" by simp
  moreover have "next_ref ?w' = next_ref w" by simp
  moreover have "delivered ?w' = delivered w @
       (case owner (heap w r) of
          None \<Rightarrow> []
        | Some ow \<Rightarrow> if truthy ow then [(ow, OrderUpdate r CANCELLED (status (heap w r)))] else [])"
    by (simp add: delivered_update_status split: option.splits)
  ultimately show ?thesis by blast
qed

lemma cancel_twice:
  assumes inv: "book_inv s" and res: "resting v s"
  shows "remove_order v (snd (remove_order v s))
       = (Inl LOBUnknownOrderError, snd (remove_order v s))"
proof -
  from remove_order_inv [OF inv res] obtain w' where w': "remove_order v s = (Inr True, w')"
    and i: "book_inv w'" and refs: "book_refs (book w') = book_refs (book s) - {v}"
    by blast
  from refs have "v \<notin> book_refs (book w')" by simp
  with i have "\<not> resting v w'" by (simp add: book_inv_resting)
  then have "remove_order v w' = (Inl LOBUnknownOrderError, w')" by (rule remove_order_unknown)
  with w' show ?thesis by simp
qed

lemma cancel_done:
  assumes inv: "book_inv s" and st: "status (heap s f) = FILLED \<or> status (heap s f) = CANCELLED"
  shows "remove_order f s = (Inl LOBUnknownOrderError, s)"
proof -
  have "\<not> resting f s"
  proof
    assume "resting f s"
    with inv have "f \<in> book_refs (book s)" by (simp add: book_inv_resting)
    with inv have "status (heap s f) = POSTED \<or> status (heap s f) = PARTIALLY_FILLED"
      by (rule book_refs_status)
    with st show False by auto
  qed
  then show ?thesis by (rule remove_order_unknown)
qed

text \<open>
  Claim C4. \<open>remove_order\<close> returns \<open>True\<close> exactly when the order rests in the level
  of its side and price. It then takes that order, and nothing else, out of the level,
  deletes the level if it is left empty, leaves the other side alone, sets the status to
  CANCELLED and notifies the owner (if there is a truthy one). Otherwise it raises
  \<open>LOBUnknownOrderError\<close> and the world is as before. In any state reached by a run with
  valid inputs, a second cancellation of an order just cancelled raises, and so does the
  cancellation of a FILLED or CANCELLED order.
\<close>

theorem remove_order_spec:
  "(fst (remove_order r w) = Inr True \<longleftrightarrow> resting r w) \<and>
   (resting r w \<longrightarrow>
      (\<exists>w'. remove_order r w = (Inr True, w') \<and>
         (\<forall>k. sd_lookup k (side_dict (side (heap w r)) (book w')) =
             (if k = convert_price (heap w r)
              then (if remove1 r (level_of (side_dict (side (heap w r)) (book w)) k) = []
                    then None
                    else Some (remove1 r (level_of (side_dict (side (heap w r)) (book w)) k)))
              else sd_lookup k (side_dict (side (heap w r)) (book w)))) \<and>
         side_dict (opposite (side (heap w r))) (book w')
           = side_dict (opposite (side (heap w r))) (book w) \<and>
         heap w' = (heap w)(r := (heap w r)\<lparr>status := CANCELLED\<rparr>) \<and>
         next_ref w' = next_ref w \<and>
         delivered w' = delivered w @
           (case owner (heap w r) of
              None \<Rightarrow> []
            | Some ow \<Rightarrow>
                if truthy ow then [(ow, OrderUpdate r CANCELLED (status (heap w r)))] else []))) \<and>
   (\<not> resting u w \<longrightarrow> remove_order u w = (Inl LOBUnknownOrderError, w)) \<and>
   (valid_ops ops \<and> resting v (run ops (init_world nm nb)) \<longrightarrow>
      remove_order v (snd (remove_order v (run ops (init_world nm nb))))
        = (Inl LOBUnknownOrderError, snd (remove_order v (run ops (init_world nm nb))))) \<and>
   (valid_ops ops \<and>
    (status (heap (run ops (init_world nm nb)) f) = FILLED \<or>
     status (heap (run ops (init_world nm nb)) f) = CANCELLED) \<longrightarrow>
      remove_order f (run ops (init_world nm nb))
        = (Inl LOBUnknownOrderError, run ops (init_world nm nb)))"
proof (intro conjI impI)
  show "fst (remove_order r w) = Inr True \<longleftrightarrow> resting r w"
    by (cases "resting r w") (simp_all add: remove_order_success remove_order_unknown)
next
  assume "resting r w"
  then show "\<exists>w'. remove_order r w = (Inr True, w') \<and>
         (\<forall>k. sd_lookup k (side_dict (side (heap w r)) (book w')) =
             (if k = convert_price (heap w r)
              then (if remove1 r (level_of (side_dict (side (heap w r)) (book w)) k) = []
                    then None
                    else Some (remove1 r (level_of (side_dict (side (heap w r)) (book w)) k)))
              else sd_lookup k (side_dict (side (heap w r)) (book w)))) \<and>
         side_dict (opposite (side (heap w r))) (book w')
           = side_dict (opposite (side (heap w r))) (book w) \<and>
         heap w' = (heap w)(r := (heap w r)\<lparr>status := CANCELLED\<rparr>) \<and>
         next_ref w' = next_ref w \<and>
         delivered w' = delivered w @
           (case owner (heap w r) of
              None \<Rightarrow> []
            | Some ow \<Rightarrow>
                if truthy ow then [(ow, OrderUpdate r CANCELLED (status (heap w r)))] else [])"
    by (rule remove_order_effects)
next
  assume "\<not> resting u w"
  then show "remove_order u w = (Inl LOBUnknownOrderError, w)" by (rule remove_order_unknown)
next
  assume a: "valid_ops ops \<and> resting v (run ops (init_world nm nb))"
  then have "book_inv (run ops (init_world nm nb))" by (simp add: run_book_inv)
  with a show "remove_order v (snd (remove_order v (run ops (init_world nm nb))))
        = (Inl LOBUnknownOrderError, snd (remove_order v (run ops (init_world nm nb))))"
    by (simp add: cancel_twice)
next
  assume a: "valid_ops ops \<and>
    (status (heap (run ops (init_world nm nb)) f) = FILLED \<or>
     status (heap (run ops (init_world nm nb)) f) = CANCELLED)"
  then have "book_inv (run ops (init_world nm nb))" by (simp add: run_book_inv)
  with a show "remove_order f (run ops (init_world nm nb))
        = (Inl LOBUnknownOrderError, run ops (init_world nm nb))"
    by (intro cancel_done) simp_all
qed

theorem remove_order_spec_witness:
  "valid_ops [Submit (Some 100) 1 SELL None, Submit (Some 100) 1 SELL None,
              Submit (Some 100) 1 BUY None] \<and>
   resting 1 (run [Submit (Some 100) 1 SELL None, Submit (Some 100) 1 SELL None,
                   Submit (Some 100) 1 BUY None] (init_world ''binance'' 0)) \<and>
   \<not> resting 2 (run [Submit (Some 100) 1 SELL None, Submit (Some 100) 1 SELL None,
                   Submit (Some 100) 1 BUY None] (init_world ''binance'' 0)) \<and>
   status (heap (run [Submit (Some 100) 1 SELL None, Submit (Some 100) 1 SELL None,
                   Submit (Some 100) 1 BUY None] (init_world ''binance'' 0)) 0) = FILLED \<and>
   fst (remove_order 1 (run [Submit (Some 100) 1 SELL None, Submit (Some 100) 1 SELL None,
                   Submit (Some 100) 1 BUY None] (init_world ''binance'' 0))) = Inr True \<and>
   asks (book (snd (remove_order 1 (run [Submit (Some 100) 1 SELL None,
                   Submit (Some 100) 1 SELL None,
                   Submit (Some 100) 1 BUY None] (init_world ''binance'' 0))))) = [] \<and>
   remove_order 2 (run [Submit (Some 100) 1 SELL None, Submit (Some 100) 1 SELL None,
                   Submit (Some 100) 1 BUY None] (init_world ''binance'' 0))
     = (Inl LOBUnknownOrderError,
        run [Submit (Some 100) 1 SELL None, Submit (Some 100) 1 SELL None,
                   Submit (Some 100) 1 BUY None] (init_world ''binance'' 0)) \<and>
   remove_order 1 (snd (remove_order 1 (run [Submit (Some 100) 1 SELL None,
                   Submit (Some 100) 1 SELL None,
                   Submit (Some 100) 1 BUY None] (init_world ''binance'' 0))))
     = (Inl LOBUnknownOrderError,
        snd (remove_order 1 (run [Submit (Some 100) 1 SELL None,
                   Submit (Some 100) 1 SELL None,
                   Submit (Some 100) 1 BUY None] (init_world ''binance'' 0)))) \<and>
   remove_order 0 (run [Submit (Some 100) 1 SELL None, Submit (Some 100) 1 SELL None,
                   Submit (Some 100) 1 BUY None] (init_world ''binance'' 0))
     = (Inl LOBUnknownOrderError,
        run [Submit (Some 100) 1 SELL None, Submit (Some 100) 1 SELL None,
                   Submit (Some 100) 1 BUY None] (init_world ''binance'' 0))"
proof -
  let ?ops = "[Submit (Some 100) 1 SELL None, Submit (Some 100) 1 SELL None,
               Submit (Some 100) 1 BUY None]"
  let ?s = "run ?ops (init_world ''binance'' 0)"
  have v: "valid_ops ?ops" by (simp add: valid_ops_def)
  have r1: "resting 1 ?s" by code_simp
  have r2: "\<not> resting 2 ?s" by code_simp
  have f0: "status (heap ?s 0) = FILLED" by code_simp
  have a: "asks (book (snd (remove_order 1 ?s))) = []" by code_simp
  from remove_order_spec [of 1 ?s 2 ?ops 1 "''binance''" 0 0] v r1 r2 f0
  have "fst (remove_order 1 ?s) = Inr True"
    and "remove_order 2 ?s = (Inl LOBUnknownOrderError, ?s)"
    and "remove_order 1 (snd (remove_order 1 ?s))
       = (Inl LOBUnknownOrderError, snd (remove_order 1 ?s))"
    and "remove_order 0 ?s = (Inl LOBUnknownOrderError, ?s)"
    by blast+
  with v r1 r2 f0 a show ?thesis by blast
qed

section \<open>Time priority within a level\<close>

text \<open>
  Claim C5. An order that rests is appended at the tail of the level of its price.
  Matching takes orders away from the front of a level only (what is left of a level is
  a suffix of what it was), and the only resting order a round of the loop writes to is
  the head of the level it looks at. With two SELL orders of size 1 resting at 100, a BUY
  of size 1 at 100 fills the one that arrived first and leaves the other as it was.
\<close>

theorem fifo_within_level:
  "(add_order r w = (Inr True, w') \<and> size_d (heap w' r) \<noteq> 0 \<longrightarrow>
      level_of (side_dict (side (heap w r)) (book w')) (convert_price (heap w r))
        = level_of (side_dict (side (heap w r)) (book w)) (convert_price (heap w r)) @ [r]) \<and>
   suffix (level_of (side_dict (opposite (side (heap w i))) (book (snd (match i w)))) k)
          (level_of (side_dict (opposite (side (heap w i))) (book w)) k) \<and>
   (heap (world_of (match_step sd p i w)) y \<noteq> heap w y \<and> y \<noteq> i \<longrightarrow>
      side_dict (opposite sd) (book w) \<noteq> [] \<and>
      (\<exists>top_price rest.
         peekitem (side_dict (opposite sd) (book w)) = (top_price, y # rest))) \<and>
   (let w0 = run [Submit (Some 100) 1 SELL None, Submit (Some 100) 1 SELL None]
               (init_world ''binance'' 0);
        w1 = snd (create_order (Some 100) 1 BUY None w0)
    in asks (book w0) = [(100, [0, 1])] \<and> asks (book w1) = [(100, [1])] \<and>
       bids (book w1) = [] \<and>
       status (heap w1 0) = FILLED \<and> size_d (heap w1 0) = 0 \<and>
       status (heap w1 1) = POSTED \<and> size_d (heap w1 1) = 1 \<and>
       status (heap w1 2) = FILLED \<and> size_d (heap w1 2) = 0)"
proof (intro conjI impI)
  assume "add_order r w = (Inr True, w') \<and> size_d (heap w' r) \<noteq> 0"
  then have "add_order r w = (Inr True, w')" and "size_d (heap w' r) \<noteq> 0" by simp_all
  then show "level_of (side_dict (side (heap w r)) (book w')) (convert_price (heap w r))
        = level_of (side_dict (side (heap w r)) (book w)) (convert_price (heap w r)) @ [r]"
    by (rule add_order_rest_level)
next
  show "suffix (level_of (side_dict (opposite (side (heap w i))) (book (snd (match i w)))) k)
          (level_of (side_dict (opposite (side (heap w i))) (book w)) k)"
    unfolding match_def by (rule match_loop_suffix)
next
  assume "heap (world_of (match_step sd p i w)) y \<noteq> heap w y \<and> y \<noteq> i"
  then have "heap (world_of (match_step sd p i w)) y \<noteq> heap w y" and "y \<noteq> i"
    by simp_all
  then have "side_dict (opposite sd) (book w) \<noteq> [] \<and>
         (\<exists>k rest. peekitem (side_dict (opposite sd) (book w)) = (k, y # rest))"
    by (rule match_step_touch)
  then show "side_dict (opposite sd) (book w) \<noteq> []"
    and "\<exists>top_price rest. peekitem (side_dict (opposite sd) (book w)) = (top_price, y # rest)"
    by simp_all
next
  show "let w0 = run [Submit (Some 100) 1 SELL None, Submit (Some 100) 1 SELL None]
               (init_world ''binance'' 0);
        w1 = snd (create_order (Some 100) 1 BUY None w0)
    in asks (book w0) = [(100, [0, 1])] \<and> asks (book w1) = [(100, [1])] \<and>
       bids (book w1) = [] \<and>
       status (heap w1 0) = FILLED \<and> size_d (heap w1 0) = 0 \<and>
       status (heap w1 1) = POSTED \<and> size_d (heap w1 1) = 1 \<and>
       status (heap w1 2) = FILLED \<and> size_d (heap w1 2) = 0"
    by code_simp
qed

theorem fifo_within_level_witness:
  "fst (add_order 3 two_asks) = Inr True \<and>
   size_d (heap (snd (add_order 3 two_asks)) 3) \<noteq> 0 \<and>
   level_of (asks (book two_asks)) 100 = [0, 1] \<and>
   level_of (asks (book (snd (add_order 3 two_asks)))) 100 = [0, 1] @ [3] \<and>
   suffix (level_of (asks (book (snd (match 2 two_asks)))) 100) [0, 1] \<and>
   heap (world_of (match_step BUY 100 2 two_asks)) 0 \<noteq> heap two_asks 0 \<and>
   (\<exists>top_price rest. peekitem (asks (book two_asks)) = (top_price, 0 # rest))"
proof -
  have a: "fst (add_order 3 two_asks) = Inr True" by code_simp
  then have a': "add_order 3 two_asks = (Inr True, snd (add_order 3 two_asks))"
    by (metis prod.collapse)
  have z: "size_d (heap (snd (add_order 3 two_asks)) 3) \<noteq> 0" by code_simp
  have l: "level_of (asks (book two_asks)) 100 = [0, 1]" by code_simp
  have s3: "side (heap two_asks 3) = SELL" by code_simp
  have c3: "convert_price (heap two_asks 3) = 100" by code_simp
  have s2: "side (heap two_asks 2) = BUY" by code_simp
  have t: "heap (world_of (match_step BUY 100 2 two_asks)) 0 \<noteq> heap two_asks 0" by code_simp
  from fifo_within_level
    [of 3 two_asks "snd (add_order 3 two_asks)" 2 100 BUY 100 0] a' z t
  have "level_of (side_dict (side (heap two_asks 3)) (book (snd (add_order 3 two_asks))))
          (convert_price (heap two_asks 3))
        = level_of (side_dict (side (heap two_asks 3)) (book two_asks))
            (convert_price (heap two_asks 3)) @ [3]"
    and "suffix (level_of (side_dict (opposite (side (heap two_asks 2)))
             (book (snd (match 2 two_asks)))) 100)
          (level_of (side_dict (opposite (side (heap two_asks 2))) (book two_asks)) 100)"
    and "\<exists>top_price rest.
         peekitem (side_dict (opposite BUY) (book two_asks)) = (top_price, 0 # rest)"
    by simp_all
  then have "level_of (asks (book (snd (add_order 3 two_asks)))) 100
        = level_of (asks (book two_asks)) 100 @ [3]"
    and "suffix (level_of (asks (book (snd (match 2 two_asks)))) 100)
          (level_of (asks (book two_asks)) 100)"
    and "\<exists>top_price rest. peekitem (asks (book two_asks)) = (top_price, 0 # rest)"
    unfolding s3 c3 s2 by simp_all
  then show ?thesis using a z t l unfolding l by blast
qed

end
